theory Spec2Isabelle
  imports Main "HOL-Library.Word" "HOL-Library.Signed_Division" "HOL-Library.AList"
    "HOL-Library.Multiset" "HOL-Library.Log_Nat"
begin

section \<open>The base flow controller (internal/flowcontrol/base\_flow\_controller.go)\<close>

text \<open>
  \<open>protocol.ByteCount\<close> is declared in internal/protocol, outside the two source files;
  quic-go declares it as \<open>type ByteCount int64\<close>. The flow controller adds counts that its
  callers supply, so its fields are 64-bit words here: \<open>+\<close>, \<open>-\<close> and \<open>*\<close> wrap around,
  and the comparisons of the source are the signed ones (\<open><s\<close>, \<open>\<le>s\<close>).

  The mutex and the logger are left out. \<open>time.Time\<close> is an integer count of nanoseconds,
  \<open>time.Now()\<close> and \<open>rttStats.SmoothedRTT()\<close> are arguments of the functions that read
  them, and \<open>allowWindowIncrease\<close> is an optional predicate (\<open>None\<close> is Go's nil).
\<close>

type_synonym ByteCount64 = "64 word"

record baseFlowController =
  bytesSent :: ByteCount64
  sendWindow :: ByteCount64
  lastBlockedAt :: ByteCount64
  bytesRead :: ByteCount64
  highestReceived :: ByteCount64
  receiveWindow :: ByteCount64
  receiveWindowSize :: ByteCount64
  maxReceiveWindowSize :: ByteCount64
  allowWindowIncrease :: "(ByteCount64 \<Rightarrow> bool) option"
  epochStartTime :: int
  epochStartOffset :: ByteCount64

definition sendWindowSize :: "baseFlowController \<Rightarrow> ByteCount64" where
  "sendWindowSize c =
     (if sendWindow c <s bytesSent c then 0 else sendWindow c - bytesSent c)"

definition IsNewlyBlocked ::
  "baseFlowController \<Rightarrow> (bool \<times> ByteCount64) \<times> baseFlowController" where
  "IsNewlyBlocked c =
     (if sendWindowSize c \<noteq> 0 \<or> sendWindow c = lastBlockedAt c then ((False, 0), c)
      else ((True, sendWindow c), c\<lparr>lastBlockedAt := sendWindow c\<rparr>))"

definition AddBytesSent :: "ByteCount64 \<Rightarrow> baseFlowController \<Rightarrow> baseFlowController" where
  "AddBytesSent n c = c\<lparr>bytesSent := bytesSent c + n\<rparr>"

definition UpdateSendWindow :: "ByteCount64 \<Rightarrow> baseFlowController \<Rightarrow> baseFlowController" where
  "UpdateSendWindow offset c = (if sendWindow c <s offset then c\<lparr>sendWindow := offset\<rparr> else c)"

definition startNewAutoTuningEpoch :: "int \<Rightarrow> baseFlowController \<Rightarrow> baseFlowController" where
  "startNewAutoTuningEpoch now c = c\<lparr>epochStartTime := now, epochStartOffset := bytesRead c\<rparr>"

definition addBytesRead :: "int \<Rightarrow> ByteCount64 \<Rightarrow> baseFlowController \<Rightarrow> baseFlowController" where
  "addBytesRead now n c =
     (let c1 = (if bytesRead c = 0 then startNewAutoTuningEpoch now c else c)
      in c1\<lparr>bytesRead := bytesRead c1 + n\<rparr>)"

text \<open>
  Modelled from the spec: \<open>protocol.WindowUpdateThreshold\<close> is declared outside the
  sources; the spec gives 0.25. The source computes
  \<open>ByteCount(float64(receiveWindowSize) * (1 - WindowUpdateThreshold))\<close>: the product with
  0.75 is exact in float64 while the size is below \<open>2 ^ 51\<close> in absolute value, and the
  conversion back truncates towards zero, which is \<open>sdiv\<close>.
\<close>

definition windowUpdateLimit :: "ByteCount64 \<Rightarrow> ByteCount64" where
  "windowUpdateLimit windowSize = word_of_int ((3 * sint windowSize) sdiv 4)"

definition hasWindowUpdate :: "baseFlowController \<Rightarrow> bool" where
  "hasWindowUpdate c =
     (let bytesRemaining = receiveWindow c - bytesRead c
      in bytesRemaining \<le>s windowUpdateLimit (receiveWindowSize c))"

text \<open>\<open>utils.Min\<close> on byte counts, and Go's \<open>/ 2\<close>, which truncates towards zero.\<close>

definition Min_bc :: "ByteCount64 \<Rightarrow> ByteCount64 \<Rightarrow> ByteCount64" where
  "Min_bc a b = (if a <s b then a else b)"

definition half_bc :: "ByteCount64 \<Rightarrow> ByteCount64" where
  "half_bc a = word_of_int (sint a sdiv 2)"

text \<open>
  \<open>maybeAdjustWindowSize\<close>. The floating-point product
  \<open>time.Duration(4 * fraction * float64(rtt))\<close> with
  \<open>fraction = float64(bytesReadInEpoch) / float64(receiveWindowSize)\<close> is the parameter
  \<open>spanOf\<close>, applied to \<open>bytesReadInEpoch\<close>, \<open>receiveWindowSize\<close> and \<open>rtt\<close>. The
  statements on the sequence of window updates and on the cap of the window size hold for
  every \<open>spanOf\<close>; \<open>tuningSpan\<close> below is the product as the source computes it.
\<close>

definition maybeAdjustWindowSize ::
  "(ByteCount64 \<Rightarrow> ByteCount64 \<Rightarrow> int \<Rightarrow> int) \<Rightarrow> int \<Rightarrow> int \<Rightarrow>
     baseFlowController \<Rightarrow> baseFlowController" where
  "maybeAdjustWindowSize spanOf now rtt c =
     (let bytesReadInEpoch = bytesRead c - epochStartOffset c
      in if bytesReadInEpoch \<le>s half_bc (receiveWindowSize c) then c
         else if rtt = 0 then c
         else
           let c1 =
             (if now - epochStartTime c < spanOf bytesReadInEpoch (receiveWindowSize c) rtt
              then
                let newSize = Min_bc (2 * receiveWindowSize c) (maxReceiveWindowSize c)
                in if receiveWindowSize c <s newSize \<and>
                      (case allowWindowIncrease c of
                         None \<Rightarrow> True
                       | Some allow \<Rightarrow> allow (newSize - receiveWindowSize c))
                   then c\<lparr>receiveWindowSize := newSize\<rparr>
                   else c
              else c)
           in startNewAutoTuningEpoch now c1)"

text \<open>
  The arithmetic of \<open>float64\<close> (IEEE 754 binary64) that \<open>maybeAdjustWindowSize\<close> uses:
  the conversion of an integer, the quotient and the product are each the exact result
  rounded to 53 significant bits, to the nearest and to the even one of two nearest.
  \<open>float64 x\<close> is that rounding of a rational \<open>x\<close>, for \<open>x\<close> from \<open>2 ^ -64\<close> up to the
  largest finite value; nothing below uses it elsewhere. With \<open>n\<close> the integer part of
  \<open>x * 2 ^ 64\<close>, the leading bit of \<open>x\<close> is bit \<open>bitlen n - 65\<close>, so bit
  \<open>bitlen n - 117\<close> is the last of the 53.
\<close>

definition pow2 :: "int \<Rightarrow> rat" where
  "pow2 e = (if 0 \<le> e then 2 ^ nat e else 1 / 2 ^ nat (- e))"

definition roundHalfEven :: "rat \<Rightarrow> int" where
  "roundHalfEven y =
     (let n = \<lfloor>y\<rfloor>; r = y - of_int n
      in if r < 1 / 2 then n else if 1 / 2 < r then n + 1 else if even n then n else n + 1)"

definition float64 :: "rat \<Rightarrow> rat" where
  "float64 x =
     (let e = bitlen \<lfloor>x * 2 ^ 64\<rfloor> - 117
      in of_int (roundHalfEven (x / pow2 e)) * pow2 e)"

text \<open>
  Lines 115 and 117: \<open>fraction\<close> and \<open>time.Duration(4 * fraction * float64(rtt))\<close>. Go
  multiplies from the left, so \<open>4 * fraction\<close> is rounded before the product with
  \<open>float64(rtt)\<close>, and the conversion to \<open>time.Duration\<close>, a count of nanoseconds in 64
  bits, drops the fraction. The definition is the source's value for a positive
  \<open>receiveWindowSize\<close>, positive \<open>bytesReadInEpoch\<close> and \<open>rtt\<close>, and a product below
  \<open>2 ^ 63\<close>; outside, the result of the source is infinite, not a number, or depends on
  the processor.
\<close>

definition tuningSpan :: "ByteCount64 \<Rightarrow> ByteCount64 \<Rightarrow> int \<Rightarrow> int" where
  "tuningSpan bytesReadInEpoch windowSize rtt =
     (let fraction =
            float64 (float64 (of_int (sint bytesReadInEpoch)) / float64 (of_int (sint windowSize)))
      in \<lfloor>float64 (float64 (4 * fraction) * float64 (of_int rtt))\<rfloor>)"

definition getWindowUpdate ::
  "(ByteCount64 \<Rightarrow> ByteCount64 \<Rightarrow> int \<Rightarrow> int) \<Rightarrow> int \<Rightarrow> int \<Rightarrow>
     baseFlowController \<Rightarrow> ByteCount64 \<times> baseFlowController" where
  "getWindowUpdate spanOf now rtt c =
     (if \<not> hasWindowUpdate c then (0, c)
      else
        let c1 = maybeAdjustWindowSize spanOf now rtt c;
            c2 = c1\<lparr>receiveWindow := bytesRead c1 + receiveWindowSize c1\<rparr>
        in (receiveWindow c2, c2))"

definition checkFlowControlViolation :: "baseFlowController \<Rightarrow> bool" where
  "checkFlowControlViolation c = (receiveWindow c <s highestReceived c)"

text \<open>Call sequences on the sending side, and the offsets reported as newly blocked.\<close>

datatype send_call = CallAddBytesSent ByteCount64 | CallUpdateSendWindow ByteCount64
  | CallIsNewlyBlocked

fun blockedReports :: "baseFlowController \<Rightarrow> send_call list \<Rightarrow> ByteCount64 list" where
  "blockedReports c [] = []"
| "blockedReports c (CallAddBytesSent n # calls) = blockedReports (AddBytesSent n c) calls"
| "blockedReports c (CallUpdateSendWindow offset # calls) =
     blockedReports (UpdateSendWindow offset c) calls"
| "blockedReports c (CallIsNewlyBlocked # calls) =
     (let r = IsNewlyBlocked c
      in if fst (fst r) then snd (fst r) # blockedReports (snd r) calls
         else blockedReports (snd r) calls)"

text \<open>
  Call sequences on the receiving side. \<open>windowUpdates\<close> collects the nonzero returns of
  \<open>getWindowUpdate\<close> in call order; \<open>readsWithin\<close> says that every count read is
  non-negative and that \<open>bytesRead\<close> stays at or below a bound.
\<close>

datatype recv_call = CallAddBytesRead int ByteCount64 | CallGetWindowUpdate int int

fun windowUpdates ::
  "(ByteCount64 \<Rightarrow> ByteCount64 \<Rightarrow> int \<Rightarrow> int) \<Rightarrow> baseFlowController \<Rightarrow> recv_call list \<Rightarrow>
     ByteCount64 list" where
  "windowUpdates spanOf c [] = []"
| "windowUpdates spanOf c (CallAddBytesRead now n # calls) =
     windowUpdates spanOf (addBytesRead now n c) calls"
| "windowUpdates spanOf c (CallGetWindowUpdate now rtt # calls) =
     (let r = getWindowUpdate spanOf now rtt c
      in if fst r \<noteq> 0 then fst r # windowUpdates spanOf (snd r) calls
         else windowUpdates spanOf (snd r) calls)"

fun readsWithin :: "int \<Rightarrow> int \<Rightarrow> recv_call list \<Rightarrow> bool" where
  "readsWithin bound sofar [] = True"
| "readsWithin bound sofar (CallAddBytesRead now n # calls) =
     (0 \<le> sint n \<and> sofar + sint n \<le> bound \<and> readsWithin bound (sofar + sint n) calls)"
| "readsWithin bound sofar (CallGetWindowUpdate now rtt # calls) = readsWithin bound sofar calls"

text \<open>
  \<open>offsetsInRange bound c\<close>: the window sizes are positive and at most \<open>2 ^ 62\<close>, and
  \<open>bytesRead\<close> and \<open>receiveWindow\<close> are non-negative, the first at most \<open>bound\<close>. With
  \<open>bound\<close> at most \<open>protocol.MaxByteCount = 2 ^ 62 - 1\<close>, the largest offset of a QUIC
  stream, no addition or subtraction of the receiving side wraps around.
\<close>

definition offsetsInRange :: "int \<Rightarrow> baseFlowController \<Rightarrow> bool" where
  "offsetsInRange bound c \<longleftrightarrow>
     0 < sint (receiveWindowSize c) \<and> sint (receiveWindowSize c) \<le> 2 ^ 62 \<and>
     sint (maxReceiveWindowSize c) \<le> 2 ^ 62 \<and>
     0 \<le> sint (bytesRead c) \<and> sint (bytesRead c) \<le> bound \<and>
     0 \<le> sint (receiveWindow c)"

text \<open>
  Modelled from the spec: the constructors of the flow controllers are outside the
  sources. The configuration table of the spec names the starting values
  \<open>initialReceiveWindowSize\<close>, \<open>maxReceiveWindowSize\<close>, \<open>initialSendWindow\<close> and the
  optional \<open>allow_window_increase\<close>; every counter starts at 0.
\<close>

definition newBaseFlowController ::
  "ByteCount64 \<Rightarrow> ByteCount64 \<Rightarrow> ByteCount64 \<Rightarrow> (ByteCount64 \<Rightarrow> bool) option \<Rightarrow>
     baseFlowController" where
  "newBaseFlowController initialReceiveWindowSize maxSize initialSendWindow allow =
     \<lparr>bytesSent = 0, sendWindow = initialSendWindow, lastBlockedAt = 0, bytesRead = 0,
      highestReceived = 0, receiveWindow = initialReceiveWindowSize,
      receiveWindowSize = initialReceiveWindowSize, maxReceiveWindowSize = maxSize,
      allowWindowIncrease = allow, epochStartTime = 0, epochStartOffset = 0\<rparr>"

section \<open>The frame sorter (frame\_sorter.go)\<close>

text \<open>
  The sorter only compares offsets, adds payload lengths to them and subtracts a smaller
  offset from a larger one, so \<open>protocol.ByteCount\<close> is \<open>int\<close> here: the model describes
  every run in which \<open>offset + len(data)\<close> stays in the 64-bit range, as it does for the
  offsets of a QUIC stream, which end at \<open>protocol.MaxByteCount\<close>. A payload is a
  \<open>string\<close> (a list of bytes). A done-callback is a name (a number); \<open>None\<close> is Go's nil
  \<open>func()\<close>, and calling a callback appends its name to the list of fired callbacks that
  every operation returns.

  Go's \<open>map[ByteCount]frameSorterEntry\<close> is an association list read with \<open>map_of\<close>,
  written with \<open>AList.update\<close> and \<open>AList.delete\<close>; the order of the list has no
  counterpart in the source. The variable \<open>end\<close> of \<open>push\<close> is \<open>endPos\<close>. The linked list of gaps is a list; a \<open>*list.Element\<close> is
  the index of the element in the list as it is when \<open>push\<close> starts, and the nil element
  is \<open>None\<close>.
\<close>

type_synonym ByteCount = int
type_synonym callback = nat

record byteInterval =
  Start :: ByteCount
  End :: ByteCount

record frameSorterEntry =
  Data :: string
  DoneCb :: "callback option"

type_synonym entryQueue = "(ByteCount \<times> frameSorterEntry) list"

record frameSorter =
  queue :: entryQueue
  readPos :: ByteCount
  gaps :: "byteInterval list"

text \<open>
  The constants of internal/protocol that the sorter reads are declared outside the
  sources. They are parameters of the model; \<open>quicGo\<close> holds the values quic-go gives
  them.
\<close>

record protocolConsts =
  MaxByteCount :: ByteCount
  MinStreamFrameBufferSize :: nat
  MaxStreamFrameSorterGaps :: nat

definition quicGo :: protocolConsts where
  "quicGo = \<lparr>MaxByteCount = 2 ^ 62 - 1, MinStreamFrameBufferSize = 128,
     MaxStreamFrameSorterGaps = 1000\<rparr>"

datatype sorterError = errDuplicateStreamData | errTooManyGaps

text \<open>A call either returns or panics (a Go \<open>panic\<close>, a nil dereference, a slice out of range).\<close>

datatype 'a outcome = Returned 'a | Panicked

definition newFrameSorter :: "protocolConsts \<Rightarrow> frameSorter" where
  "newFrameSorter p = \<lparr>queue = [], readPos = 0, gaps = [\<lparr>Start = 0, End = MaxByteCount p\<rparr>]\<rparr>"

definition fire :: "callback option \<Rightarrow> callback list \<Rightarrow> callback list" where
  "fire cb fired = (case cb of None \<Rightarrow> fired | Some f \<Rightarrow> fired @ [f])"

definition entryLen :: "frameSorterEntry \<Rightarrow> ByteCount" where
  "entryLen e = int (length (Data e))"

text \<open>
  The slices \<open>data[:k]\<close> and \<open>data[k:]\<close>; out of range they panic (\<open>None\<close>). The model
  takes the capacity of \<open>data\<close> to be its length.
\<close>

definition sliceTo :: "string \<Rightarrow> int \<Rightarrow> string option" where
  "sliceTo data k = (if 0 \<le> k \<and> k \<le> int (length data) then Some (take (nat k) data) else None)"

definition sliceFrom :: "string \<Rightarrow> int \<Rightarrow> string option" where
  "sliceFrom data k = (if 0 \<le> k \<and> k \<le> int (length data) then Some (drop (nat k) data) else None)"

lemma delete_shorter:
  "map_of q k = Some e \<Longrightarrow> length (AList.delete k q) < length q"
  by (induction q) (auto simp: less_Suc_eq_le length_delete_le split: if_splits)

text \<open>\<open>findStartGap\<close>: the index of the gap found and whether the offset is in it.\<close>

fun findStartGap :: "byteInterval list \<Rightarrow> ByteCount \<Rightarrow> (nat \<times> bool) option" where
  "findStartGap [] offset = None"
| "findStartGap (gap # rest) offset =
     (if offset \<ge> Start gap \<and> offset \<le> End gap then Some (0, True)
      else if offset < Start gap then Some (0, False)
      else map_option (\<lambda>(k, inGap). (Suc k, inGap)) (findStartGap rest offset))"

text \<open>
  \<open>findEndGap\<close>, run on the gaps from \<open>startGap\<close> on. The index found counts from
  \<open>startGap\<close>; \<open>None\<close> for it is \<open>startGap.Prev()\<close>, which \<open>endGapOf\<close> resolves to an
  index of the whole list, or to nil when \<open>startGap\<close> is the front.
\<close>

fun findEndGap :: "byteInterval list \<Rightarrow> ByteCount \<Rightarrow> (nat option \<times> bool) option" where
  "findEndGap [] offset = None"
| "findEndGap (gap # rest) offset =
     (if offset \<ge> Start gap \<and> offset < End gap then Some (Some 0, True)
      else if offset < Start gap then Some (None, False)
      else map_option
             (\<lambda>(k, inGap). (Some (case k of None \<Rightarrow> 0 | Some m \<Rightarrow> Suc m), inGap))
             (findEndGap rest offset))"

definition endGapOf :: "nat \<Rightarrow> nat option \<Rightarrow> nat option" where
  "endGapOf startGap k =
     (case k of Some m \<Rightarrow> Some (startGap + m)
      | None \<Rightarrow> if startGap = 0 then None else Some (startGap - 1))"

text \<open>\<open>deleteConsecutive\<close>: the queue left and the callbacks fired.\<close>

function deleteConsecutive ::
  "entryQueue \<Rightarrow> ByteCount \<Rightarrow> callback list \<Rightarrow> entryQueue \<times> callback list" where
  "deleteConsecutive q pos fired =
     (case map_of q pos of
        None \<Rightarrow> (q, fired)
      | Some oldEntry \<Rightarrow>
          deleteConsecutive (AList.delete pos q) (pos + entryLen oldEntry)
            (fire (DoneCb oldEntry) fired))"
  by pat_completeness auto
termination
  by (relation "measure (\<lambda>(q, pos, fired). length q)") (auto simp: delete_shorter)

text \<open>
  The first loop of \<open>push\<close>, over the queued entries that start at \<open>pos\<close>. It returns
  \<open>errDuplicateStreamData\<close>, or panics in the slice, or ends with the queue, the payload,
  \<open>end\<close>, \<open>hasReplacedAtLeastOne\<close>, \<open>wasCut\<close> and the callbacks fired.
\<close>

datatype walkResult = WalkDuplicate | WalkPanicked
  | WalkDone entryQueue string ByteCount bool bool "callback list"

function replaceShorter ::
  "entryQueue \<Rightarrow> string \<Rightarrow> ByteCount \<Rightarrow> ByteCount \<Rightarrow> ByteCount \<Rightarrow> bool \<Rightarrow> callback list \<Rightarrow>
     walkResult" where
  "replaceShorter q data start endPos pos hasReplacedAtLeastOne fired =
     (case map_of q pos of
        None \<Rightarrow> WalkDone q data endPos hasReplacedAtLeastOne False fired
      | Some oldEntry \<Rightarrow>
          if endPos - pos > entryLen oldEntry
             \<or> (hasReplacedAtLeastOne \<and> endPos - pos = entryLen oldEntry)
          then replaceShorter (AList.delete pos q) data start endPos (pos + entryLen oldEntry)
                 True (fire (DoneCb oldEntry) fired)
          else if \<not> hasReplacedAtLeastOne then WalkDuplicate
          else (case sliceTo data (pos - start) of
                  None \<Rightarrow> WalkPanicked
                | Some cutData \<Rightarrow> WalkDone q cutData pos hasReplacedAtLeastOne True fired))"
  by pat_completeness auto
termination
  by (relation "measure (\<lambda>(q, data, start, endPos, pos, r, fired). length q)")
    (auto simp: delete_shorter)

text \<open>
  The loop over the gaps after \<open>startGap\<close>, run on the list of those gaps: the number
  of gaps removed, the queue and the callbacks fired; \<open>None\<close> when the loop runs off the
  end of the list (\<open>gap\<close> is nil).
\<close>

fun consumeGaps ::
  "byteInterval list \<Rightarrow> ByteCount \<Rightarrow> entryQueue \<Rightarrow> callback list \<Rightarrow>
     (nat \<times> entryQueue \<times> callback list) option" where
  "consumeGaps [] endGapStart q fired = None"
| "consumeGaps (gap # rest) endGapStart q fired =
     (if End gap < endGapStart
      then (case deleteConsecutive q (End gap) fired of
              (q', fired') \<Rightarrow>
                map_option (\<lambda>(n, r). (Suc n, r)) (consumeGaps rest endGapStart q' fired'))
      else Some (0, q, fired))"

text \<open>
  The gap list while \<open>push\<close> changes it: one cell for each element of the list as it was,
  \<open>None\<close> once the element is removed. An element keeps its index, so the saved
  pointers \<open>startGap\<close> and \<open>endGap\<close> stay valid; writing to a removed element does not
  change the list.
\<close>

definition removeGap :: "nat \<Rightarrow> byteInterval option list \<Rightarrow> byteInterval option list" where
  "removeGap k cells = cells[k := None]"

fun removeGaps :: "nat \<Rightarrow> nat \<Rightarrow> byteInterval option list \<Rightarrow> byteInterval option list" where
  "removeGaps k 0 cells = cells"
| "removeGaps k (Suc n) cells = removeGaps (Suc k) n (removeGap k cells)"

definition setStart :: "nat \<Rightarrow> ByteCount \<Rightarrow> byteInterval option list \<Rightarrow> byteInterval option list" where
  "setStart k v cells = cells[k := map_option (\<lambda>g. g\<lparr>Start := v\<rparr>) (cells ! k)]"

definition setEnd :: "nat \<Rightarrow> ByteCount \<Rightarrow> byteInterval option list \<Rightarrow> byteInterval option list" where
  "setEnd k v cells = cells[k := map_option (\<lambda>g. g\<lparr>End := v\<rparr>) (cells ! k)]"

definition liveGaps :: "byteInterval option list \<Rightarrow> byteInterval list" where
  "liveGaps cells = List.map_filter id cells"

definition insertAfter ::
  "byteInterval \<Rightarrow> nat \<Rightarrow> byteInterval option list \<Rightarrow> byteInterval list" where
  "insertAfter g k cells =
     (if cells ! k = None then liveGaps cells
      else liveGaps (take (Suc k) cells) @ [g] @ liveGaps (drop (Suc k) cells))"

text \<open>
  Lines 125 to 130 of \<open>push\<close>: a frame that starts in filled data and replaced nothing
  is cut to start at the start of \<open>startGap\<close>. The result is the payload, \<open>start\<close>
  and \<open>wasCut\<close>.
\<close>

definition alignStart ::
  "string \<Rightarrow> ByteCount \<Rightarrow> bool \<Rightarrow> byteInterval \<Rightarrow> bool \<Rightarrow> bool \<Rightarrow>
     (string \<times> ByteCount \<times> bool) option" where
  "alignStart data start wasCut startGapValue startsInGap hasReplacedAtLeastOne =
     (if \<not> startsInGap \<and> \<not> hasReplacedAtLeastOne
      then map_option (\<lambda>d. (d, Start startGapValue, True))
             (sliceFrom data (Start startGapValue - start))
      else Some (data, start, wasCut))"

text \<open>Lines 131 to 141: the update of \<open>startGap\<close>, with \<open>adjustedStartGapEnd\<close>.\<close>

definition updateStartGap ::
  "nat \<Rightarrow> byteInterval \<Rightarrow> ByteCount \<Rightarrow> ByteCount \<Rightarrow> bool \<Rightarrow> byteInterval option list \<Rightarrow>
     byteInterval option list \<times> bool" where
  "updateStartGap startGap startGapValue start endPos hasReplacedAtLeastOne cells =
     (if start \<le> Start startGapValue
      then (if endPos \<ge> End startGapValue then (removeGap startGap cells, False)
            else (setStart startGap endPos cells, False))
      else if \<not> hasReplacedAtLeastOne then (setEnd startGap start cells, True)
      else (cells, False))"

text \<open>
  Lines 143 to 151: when \<open>startGap\<close> and \<open>endGap\<close> differ, the entries behind
  \<open>startGap\<close> are deleted and the gaps between the two are removed with the entries
  behind each.
\<close>

definition consumeBetween ::
  "byteInterval list \<Rightarrow> nat \<Rightarrow> nat \<Rightarrow> byteInterval option list \<Rightarrow> entryQueue \<Rightarrow>
     callback list \<Rightarrow> (byteInterval option list \<times> entryQueue \<times> callback list) option" where
  "consumeBetween gs startGap endGap cells q fired =
     (if startGap \<noteq> endGap
      then (case deleteConsecutive q (End (gs ! startGap)) fired of
              (q', fired') \<Rightarrow>
                map_option
                  (\<lambda>(n, q'', fired''). (removeGaps (Suc startGap) n cells, q'', fired''))
                  (consumeGaps (drop (Suc startGap) gs) (Start (gs ! endGap)) q' fired'))
      else Some (cells, q, fired))"

text \<open>Lines 153 to 158: a frame that ends in filled data is cut to end at the end of \<open>endGap\<close>.\<close>

definition alignEnd ::
  "string \<Rightarrow> ByteCount \<Rightarrow> ByteCount \<Rightarrow> bool \<Rightarrow> ByteCount \<Rightarrow> bool \<Rightarrow>
     (string \<times> ByteCount \<times> bool) option" where
  "alignEnd data start endPos wasCut endGapEnd endsInGap =
     (if \<not> endsInGap \<and> start \<noteq> endGapEnd \<and> endPos > endGapEnd
      then map_option (\<lambda>d. (d, endGapEnd, True)) (sliceTo data (endGapEnd - start))
      else Some (data, endPos, wasCut))"

text \<open>Lines 159 to 171: the update of \<open>endGap\<close>; the result is the gap list of the sorter.\<close>

definition updateEndGap ::
  "nat \<Rightarrow> nat \<Rightarrow> ByteCount \<Rightarrow> ByteCount \<Rightarrow> ByteCount \<Rightarrow> bool \<Rightarrow> byteInterval option list \<Rightarrow>
     byteInterval list" where
  "updateEndGap startGap endGap endPos endGapEnd startGapEnd adjustedStartGapEnd cells =
     (if endPos = endGapEnd
      then (if startGap \<noteq> endGap then liveGaps (removeGap endGap cells) else liveGaps cells)
      else if startGap = endGap \<and> adjustedStartGapEnd
      then insertAfter \<lparr>Start = endPos, End = startGapEnd\<rparr> startGap cells
      else if startGap \<noteq> endGap then liveGaps (setStart endGap endPos cells)
      else liveGaps cells)"

text \<open>
  Lines 173 to 188: the copy of a short cut payload, which calls the callback and drops
  it, the check of the number of gaps, and the store into the queue.
\<close>

definition storeFrame ::
  "protocolConsts \<Rightarrow> frameSorter \<Rightarrow> entryQueue \<Rightarrow> byteInterval list \<Rightarrow> string \<Rightarrow> ByteCount \<Rightarrow>
     bool \<Rightarrow> callback option \<Rightarrow> callback list \<Rightarrow>
     (sorterError option \<times> frameSorter \<times> callback list) outcome" where
  "storeFrame p s q gaps' data start wasCut doneCb fired =
     (let copied = (wasCut \<and> length data < MinStreamFrameBufferSize p);
          fired' = (if copied then fire doneCb fired else fired);
          doneCb' = (if copied then None else doneCb)
      in if length gaps' > MaxStreamFrameSorterGaps p
         then Returned (Some errTooManyGaps, s\<lparr>queue := q, gaps := gaps'\<rparr>, fired')
         else Returned
                (None,
                 s\<lparr>queue := AList.update start \<lparr>Data = data, DoneCb = doneCb'\<rparr> q,
                   gaps := gaps'\<rparr>,
                 fired'))"

text \<open>
  Lines 125 to 188 of \<open>push\<close>, behind the first loop: the frame is trimmed to the gaps,
  the gap list is updated and the frame is stored.
\<close>

definition placeFrame ::
  "protocolConsts \<Rightarrow> frameSorter \<Rightarrow> ByteCount \<Rightarrow> callback option \<Rightarrow>
     nat \<Rightarrow> bool \<Rightarrow> nat \<Rightarrow> bool \<Rightarrow>
     entryQueue \<Rightarrow> string \<Rightarrow> ByteCount \<Rightarrow> bool \<Rightarrow> bool \<Rightarrow> callback list \<Rightarrow>
     (sorterError option \<times> frameSorter \<times> callback list) outcome" where
  "placeFrame p s offset doneCb startGap startsInGap endGap endsInGap
     q1 data1 endPos1 hasReplacedAtLeastOne wasCut1 fired1 =
     (let startGapValue = gaps s ! startGap;
          startGapEnd = End startGapValue;
          endGapEnd = End (gaps s ! endGap)
      in case alignStart data1 offset wasCut1 startGapValue startsInGap
                hasReplacedAtLeastOne of
           None \<Rightarrow> Panicked
         | Some (data2, start, wasCut2) \<Rightarrow>
             (case updateStartGap startGap startGapValue start endPos1
                     hasReplacedAtLeastOne (map Some (gaps s)) of
                (cells1, adjustedStartGapEnd) \<Rightarrow>
                  (case consumeBetween (gaps s) startGap endGap cells1 q1 fired1 of
                     None \<Rightarrow> Panicked
                   | Some (cells2, q2, fired2) \<Rightarrow>
                       (case alignEnd data2 start endPos1 wasCut2 endGapEnd endsInGap of
                          None \<Rightarrow> Panicked
                        | Some (data3, endPos, wasCut) \<Rightarrow>
                            storeFrame p s q2
                              (updateEndGap startGap endGap endPos endGapEnd startGapEnd
                                 adjustedStartGapEnd cells2)
                              data3 start wasCut doneCb fired2))))"

text \<open>
  \<open>push\<close> from line 88 on, with \<open>startGap\<close> and \<open>endGap\<close> found (both in the list).
  It returns the error (\<open>None\<close> is nil), the sorter and the callbacks fired.
\<close>

definition pushInto ::
  "protocolConsts \<Rightarrow> frameSorter \<Rightarrow> string \<Rightarrow> ByteCount \<Rightarrow> callback option \<Rightarrow>
     nat \<Rightarrow> bool \<Rightarrow> nat \<Rightarrow> bool \<Rightarrow>
     (sorterError option \<times> frameSorter \<times> callback list) outcome" where
  "pushInto p s data offset doneCb startGap startsInGap endGap endsInGap =
     (case replaceShorter (queue s) data offset (offset + int (length data)) offset False [] of
        WalkDuplicate \<Rightarrow> Returned (Some errDuplicateStreamData, s, [])
      | WalkPanicked \<Rightarrow> Panicked
      | WalkDone q1 data1 endPos1 hasReplacedAtLeastOne wasCut1 fired1 \<Rightarrow>
          placeFrame p s offset doneCb startGap startsInGap endGap endsInGap
            q1 data1 endPos1 hasReplacedAtLeastOne wasCut1 fired1)"

text \<open>
  \<open>push\<close> up to line 86: the empty payload, the frame below the first gap, the two
  searches and the test for a frame that lies between two gaps. \<open>s.gaps.Front()\<close> of an
  empty list is nil, and so is the \<open>endGap\<close> of line 84 when \<open>findEndGap\<close> returned the
  \<open>Prev()\<close> of the front: reading their \<open>Value\<close> panics.
\<close>

definition push ::
  "protocolConsts \<Rightarrow> frameSorter \<Rightarrow> string \<Rightarrow> ByteCount \<Rightarrow> callback option \<Rightarrow>
     (sorterError option \<times> frameSorter \<times> callback list) outcome" where
  "push p s data offset doneCb =
     (if length data = 0 then Returned (Some errDuplicateStreamData, s, [])
      else
        let start = offset; endPos = offset + int (length data)
        in case gaps s of
             [] \<Rightarrow> Panicked
           | front # others \<Rightarrow>
               if endPos \<le> Start front then Returned (Some errDuplicateStreamData, s, [])
               else
                 (case findStartGap (gaps s) start of
                    None \<Rightarrow> Panicked
                  | Some (startGap, startsInGap) \<Rightarrow>
                      (case findEndGap (drop startGap (gaps s)) endPos of
                         None \<Rightarrow> Panicked
                       | Some (k, endsInGap) \<Rightarrow>
                           (case endGapOf startGap k of
                              None \<Rightarrow> Panicked
                            | Some endGap \<Rightarrow>
                                if (startGap = endGap \<and> endPos \<le> Start (gaps s ! startGap))
                                   \<or> (startGap \<noteq> endGap
                                       \<and> End (gaps s ! startGap) \<ge> Start (gaps s ! endGap)
                                       \<and> endPos \<le> Start (gaps s ! startGap))
                                then Returned (Some errDuplicateStreamData, s, [])
                                else pushInto p s data offset doneCb startGap startsInGap
                                       endGap endsInGap))))"

text \<open>The exported \<open>Push\<close>: a duplicate is not an error, and its callback is called.\<close>

definition Push ::
  "protocolConsts \<Rightarrow> frameSorter \<Rightarrow> string \<Rightarrow> ByteCount \<Rightarrow> callback option \<Rightarrow>
     (sorterError option \<times> frameSorter \<times> callback list) outcome" where
  "Push p s data offset doneCb =
     (case push p s data offset doneCb of
        Panicked \<Rightarrow> Panicked
      | Returned (err, s', fired) \<Rightarrow>
          if err = Some errDuplicateStreamData then Returned (None, s', fire doneCb fired)
          else Returned (err, s', fired))"

text \<open>
  \<open>Pop\<close> returns the offset, the payload (\<open>None\<close> is the nil slice) and the callback,
  with the sorter.
\<close>

definition Pop ::
  "frameSorter \<Rightarrow> ((ByteCount \<times> string option \<times> callback option) \<times> frameSorter) outcome" where
  "Pop s =
     (case map_of (queue s) (readPos s) of
        None \<Rightarrow> Returned ((readPos s, None, None), s)
      | Some entry \<Rightarrow>
          let s' = s\<lparr>queue := AList.delete (readPos s) (queue s),
                     readPos := readPos s + entryLen entry\<rparr>
          in case gaps s' of
               [] \<Rightarrow> Panicked
             | front # others \<Rightarrow>
                 if End front \<le> readPos s' then Panicked
                 else Returned ((readPos s, Some (Data entry), DoneCb entry), s'))"

definition HasMoreData :: "frameSorter \<Rightarrow> bool" where
  "HasMoreData s = (length (queue s) > 0)"

text \<open>
  Call sequences on a sorter: what each call returned, in order, and the sorter left. A
  panic ends the run.
\<close>

datatype sorterCall = CallPush string ByteCount "callback option" | CallPop

datatype sorterEvent = PushReturned "sorterError option" "callback list"
  | PopReturned ByteCount "string option" "callback option"
  | Crashed

fun runSorter ::
  "protocolConsts \<Rightarrow> frameSorter \<Rightarrow> sorterCall list \<Rightarrow> sorterEvent list \<times> frameSorter" where
  "runSorter p s [] = ([], s)"
| "runSorter p s (CallPush data offset doneCb # calls) =
     (case Push p s data offset doneCb of
        Panicked \<Rightarrow> ([Crashed], s)
      | Returned r \<Rightarrow>
          (PushReturned (fst r) (snd (snd r)) # fst (runSorter p (fst (snd r)) calls),
           snd (runSorter p (fst (snd r)) calls)))"
| "runSorter p s (CallPop # calls) =
     (case Pop s of
        Panicked \<Rightarrow> ([Crashed], s)
      | Returned r \<Rightarrow>
          (PopReturned (fst (fst r)) (fst (snd (fst r))) (snd (snd (fst r)))
             # fst (runSorter p (snd r) calls),
           snd (runSorter p (snd r) calls)))"

declare deleteConsecutive.simps [simp del] replaceShorter.simps [simp del]

section \<open>The frame sorter: well-formed sorters\<close>

text \<open>
  The notions the theorems on \<open>Push\<close> and \<open>Pop\<close> are stated with. The gaps of a sorter
  are \<open>gapsOrdered\<close> when each is a non-empty interval and each ends before the next
  starts (two gaps never touch: a frame lies between them). A range \<open>[a, b)\<close> is
  \<open>clearOfGaps\<close> when no gap meets it: all of it has been received.
\<close>

definition gapsOrdered :: "byteInterval list \<Rightarrow> bool" where
  "gapsOrdered gs \<longleftrightarrow>
     (\<forall>g \<in> set gs. Start g < End g) \<and> sorted_wrt (\<lambda>g h. End g < Start h) gs"

definition clearOfGaps :: "byteInterval list \<Rightarrow> ByteCount \<Rightarrow> ByteCount \<Rightarrow> bool" where
  "clearOfGaps gs a b \<longleftrightarrow> (\<forall>g \<in> set gs. b \<le> Start g \<or> End g \<le> a)"

definition entriesClear :: "byteInterval list \<Rightarrow> entryQueue \<Rightarrow> bool" where
  "entriesClear gs q \<longleftrightarrow>
     (\<forall>(k, e) \<in> set q. Data e \<noteq> [] \<and> clearOfGaps gs k (k + entryLen e))"

text \<open>
  The invariant of the sorter, which \<open>newFrameSorter\<close> establishes and every \<open>Push\<close>
  that returns nil and every \<open>Pop\<close> keeps: the gap list is not empty, ordered, and ends
  at \<open>MaxByteCount\<close>; the map has one entry for a key; every queued entry is not empty and
  lies outside the gaps; a frame is queued at the end of every gap but the last; the read
  position is not behind the first gap; and there are at most \<open>MaxStreamFrameSorterGaps\<close>
  gaps.
\<close>

definition wfSorter :: "protocolConsts \<Rightarrow> frameSorter \<Rightarrow> bool" where
  "wfSorter p s \<longleftrightarrow>
     gaps s \<noteq> [] \<and> End (last (gaps s)) = MaxByteCount p \<and> gapsOrdered (gaps s) \<and>
     distinct (map fst (queue s)) \<and> entriesClear (gaps s) (queue s) \<and>
     (\<forall>g \<in> set (gaps s). End g < MaxByteCount p \<longrightarrow> map_of (queue s) (End g) \<noteq> None) \<and>
     readPos s \<le> Start (hd (gaps s)) \<and>
     length (gaps s) \<le> MaxStreamFrameSorterGaps p"

text \<open>
  What storing the range \<open>[a, b)\<close> does to a gap: a gap the range does not meet stays,
  and of a gap it meets the part below \<open>a\<close> and the part from \<open>b\<close> on are left.
\<close>

definition cutGap :: "ByteCount \<Rightarrow> ByteCount \<Rightarrow> byteInterval \<Rightarrow> byteInterval list" where
  "cutGap a b g =
     (if b \<le> Start g \<or> End g \<le> a then [g]
      else (if Start g < a then [g\<lparr>End := a\<rparr>] else [])
           @ (if b < End g then [g\<lparr>Start := b\<rparr>] else []))"

definition cutGaps :: "ByteCount \<Rightarrow> ByteCount \<Rightarrow> byteInterval list \<Rightarrow> byteInterval list" where
  "cutGaps a b gs = concat (map (cutGap a b) gs)"

text \<open>The callbacks the queued entries hold, with their multiplicities.\<close>

definition heldCallbacks :: "entryQueue \<Rightarrow> callback multiset" where
  "heldCallbacks q = mset (List.map_filter (\<lambda>(k, e). DoneCb e) q)"

text \<open>
  A run of consecutive entries that starts at or behind \<open>lo\<close>, outside the gaps, ends
  before the next gap: every key it deletes is at least \<open>lo\<close> and below the start of every
  gap that ends behind \<open>lo\<close>.
\<close>

definition inRun :: "byteInterval list \<Rightarrow> ByteCount \<Rightarrow> ByteCount \<Rightarrow> bool" where
  "inRun gs lo k \<longleftrightarrow> lo \<le> k \<and> (\<forall>x \<in> set gs. End x \<le> lo \<or> k < Start x)"

text \<open>
  What the first loop of \<open>push\<close> returns when it goes on from \<open>pos\<close> after a replacement:
  it ends at \<open>e1\<close>, with the payload cut there; the entries it deleted lie in the run from
  \<open>lo\<close>, and their callbacks are the ones it called.
\<close>

definition replacedRun ::
  "byteInterval list \<Rightarrow> ByteCount \<Rightarrow> entryQueue \<Rightarrow> callback list \<Rightarrow> string \<Rightarrow> ByteCount \<Rightarrow>
     ByteCount \<Rightarrow> ByteCount \<Rightarrow> walkResult \<Rightarrow> bool" where
  "replacedRun gs lo q f data a b pos r =
     (case r of
        WalkDone q1 d1 e1 rep1 c1 f1 \<Rightarrow>
          rep1 \<and> distinct (map fst q1) \<and> set q1 \<subseteq> set q
          \<and> heldCallbacks q1 + mset f1 = heldCallbacks q + mset f
          \<and> (\<forall>k. map_of q1 k = map_of q k \<or> map_of q1 k = None \<and> inRun gs lo k \<and> k < e1)
          \<and> pos \<le> e1 \<and> e1 \<le> b \<and> d1 = take (nat (e1 - a)) data
          \<and> (if c1
              then (\<forall>x \<in> set gs. End x \<le> lo \<or> b < Start x)
                   \<and> (case map_of q1 e1 of None \<Rightarrow> False | Some e \<Rightarrow> b - e1 < entryLen e)
              else e1 = b)
      | WalkDuplicate \<Rightarrow> False
      | WalkPanicked \<Rightarrow> False)"

text \<open>
  The calls of \<open>deleteConsecutive\<close> in lines 143 to 151, one behind each of the gaps
  given.
\<close>

fun deleteBehind ::
  "byteInterval list \<Rightarrow> entryQueue \<Rightarrow> callback list \<Rightarrow> entryQueue \<times> callback list" where
  "deleteBehind [] q f = (q, f)"
| "deleteBehind (x # xs) q f =
     (case deleteConsecutive q (End x) f of (q', f') \<Rightarrow> deleteBehind xs q' f')"

text \<open>
  What the first loop leaves for a frame \<open>[a, b)\<close> that starts in or before the gap \<open>g\<close>
  and is not a duplicate: the queue \<open>q1\<close>, the end \<open>e1\<close>, whether an entry was replaced,
  and the callbacks called.
\<close>

definition walked ::
  "byteInterval list \<Rightarrow> entryQueue \<Rightarrow> ByteCount \<Rightarrow> ByteCount \<Rightarrow> byteInterval \<Rightarrow>
     entryQueue \<Rightarrow> ByteCount \<Rightarrow> bool \<Rightarrow> callback list \<Rightarrow> bool" where
  "walked gs q a b g q1 e1 rep f1 \<longleftrightarrow>
     (if rep
      then (a < Start g \<or> a = End g) \<and> a < e1 \<and> e1 \<le> b
           \<and> (\<forall>k. map_of q1 k = map_of q k \<or> map_of q1 k = None \<and> inRun gs a k \<and> k < e1)
      else a \<noteq> End g \<and> q1 = q \<and> f1 = [] \<and> e1 = b)
     \<and> distinct (map fst q1) \<and> set q1 \<subseteq> set q
     \<and> heldCallbacks q1 + mset f1 = heldCallbacks q \<and> map_of q1 a = None"

text \<open>
  The outcome \<open>r\<close> of a push of \<open>data\<close> at \<open>a\<close> that is not a duplicate: the part
  \<open>[start, stop)\<close> of the frame is stored, through \<open>storeFrame\<close>; what the frame has
  before \<open>start\<close> and from \<open>stop\<close> on was received before; the gaps are cut by
  \<open>[start, stop)\<close>; the entries deleted lie in \<open>[start, stop)\<close>, and their callbacks are
  the ones called.
\<close>

definition framePlaced ::
  "protocolConsts \<Rightarrow> frameSorter \<Rightarrow> string \<Rightarrow> ByteCount \<Rightarrow> callback option \<Rightarrow>
     (sorterError option \<times> frameSorter \<times> callback list) outcome \<Rightarrow> bool" where
  "framePlaced p s data a cb r \<longleftrightarrow>
     (\<exists>start stop q2 f2 wasCut.
        r = storeFrame p s q2 (cutGaps start stop (gaps s))
              (take (nat (stop - start)) (drop (nat (start - a)) data)) start wasCut cb f2
        \<and> a \<le> start \<and> start < stop \<and> stop \<le> a + int (length data)
        \<and> (start = a \<or> clearOfGaps (gaps s) a start)
        \<and> (stop = a + int (length data) \<or> clearOfGaps (gaps s) stop (a + int (length data)))
        \<and> distinct (map fst q2) \<and> set q2 \<subseteq> set (queue s)
        \<and> heldCallbacks q2 + mset f2 = heldCallbacks (queue s)
        \<and> (\<forall>k. map_of q2 k = map_of (queue s) k \<or> map_of q2 k = None \<and> start \<le> k \<and> k < stop)
        \<and> map_of q2 start = None)"

text \<open>
  The callbacks of a call sequence: the ones passed to \<open>Push\<close>, and the ones invoked,
  which are those a \<open>Push\<close> called and those a \<open>Pop\<close> handed to its caller.
  \<open>framesInRange\<close>: every frame pushed is empty or ends below \<open>MaxByteCount\<close>. \<open>pushFailed\<close>: the
  event is a \<open>Push\<close> that returned an error.
\<close>

fun pushedCallbacks :: "sorterCall list \<Rightarrow> callback multiset" where
  "pushedCallbacks [] = {#}"
| "pushedCallbacks (CallPush data offset doneCb # calls) =
     mset (fire doneCb []) + pushedCallbacks calls"
| "pushedCallbacks (CallPop # calls) = pushedCallbacks calls"

fun invokedCallbacks :: "sorterEvent list \<Rightarrow> callback multiset" where
  "invokedCallbacks [] = {#}"
| "invokedCallbacks (PushReturned err fired # events) = mset fired + invokedCallbacks events"
| "invokedCallbacks (PopReturned offset data doneCb # events) =
     mset (fire doneCb []) + invokedCallbacks events"
| "invokedCallbacks (Crashed # events) = invokedCallbacks events"

fun framesInRange :: "protocolConsts \<Rightarrow> sorterCall list \<Rightarrow> bool" where
  "framesInRange p [] = True"
| "framesInRange p (CallPush data offset doneCb # calls) =
     ((data = [] \<or> offset + int (length data) < MaxByteCount p) \<and> framesInRange p calls)"
| "framesInRange p (CallPop # calls) = framesInRange p calls"

fun pushFailed :: "sorterEvent \<Rightarrow> bool" where
  "pushFailed (PushReturned err fired) = (err \<noteq> None)"
| "pushFailed (PopReturned offset data doneCb) = False"
| "pushFailed Crashed = False"

section \<open>Sending side: the blocked signal\<close>

lemma sendWindowSize_zero_iff: "sendWindowSize c = 0 \<longleftrightarrow> sendWindow c \<le>s bytesSent c"
  by (auto simp: sendWindowSize_def)

lemma blockedReports_ge:
  "x \<in> set (blockedReports c calls) \<Longrightarrow> sendWindow c \<le>s x"
proof (induction calls arbitrary: c)
  case Nil
  then show ?case by simp
next
  case (Cons call calls)
  show ?case
  proof (cases call)
    case (CallAddBytesSent n)
    with Cons show ?thesis by (fastforce simp: AddBytesSent_def)
  next
    case (CallUpdateSendWindow offset)
    with Cons.prems have "x \<in> set (blockedReports (UpdateSendWindow offset c) calls)" by simp
    then have "sendWindow (UpdateSendWindow offset c) \<le>s x" by (rule Cons.IH)
    then show ?thesis
      by (auto simp: UpdateSendWindow_def word_sle_eq word_sless_alt split: if_splits)
  next
    case CallIsNewlyBlocked
    show ?thesis
    proof (cases "sendWindowSize c \<noteq> 0 \<or> sendWindow c = lastBlockedAt c")
      case True
      with Cons CallIsNewlyBlocked show ?thesis by (simp add: IsNewlyBlocked_def)
    next
      case False
      with Cons.prems CallIsNewlyBlocked
      have "x = sendWindow c \<or> x \<in> set (blockedReports (c\<lparr>lastBlockedAt := sendWindow c\<rparr>) calls)"
        by (simp add: IsNewlyBlocked_def)
      then show ?thesis
      proof
        assume "x = sendWindow c"
        then show ?thesis by simp
      next
        assume "x \<in> set (blockedReports (c\<lparr>lastBlockedAt := sendWindow c\<rparr>) calls)"
        then have "sendWindow (c\<lparr>lastBlockedAt := sendWindow c\<rparr>) \<le>s x" by (rule Cons.IH)
        then show ?thesis by simp
      qed
    qed
  qed
qed

lemma blockedReports_gt:
  "lastBlockedAt c = sendWindow c \<Longrightarrow> x \<in> set (blockedReports c calls) \<Longrightarrow> sendWindow c <s x"
proof (induction calls arbitrary: c)
  case Nil
  then show ?case by simp
next
  case (Cons call calls)
  show ?case
  proof (cases call)
    case (CallAddBytesSent n)
    with Cons.prems have "x \<in> set (blockedReports (AddBytesSent n c) calls)" by simp
    moreover have "lastBlockedAt (AddBytesSent n c) = sendWindow (AddBytesSent n c)"
      using Cons.prems(1) by (simp add: AddBytesSent_def)
    ultimately have "sendWindow (AddBytesSent n c) <s x" by (rule Cons.IH [rotated])
    then show ?thesis by (simp add: AddBytesSent_def)
  next
    case (CallUpdateSendWindow offset)
    with Cons.prems have mem: "x \<in> set (blockedReports (UpdateSendWindow offset c) calls)"
      by simp
    show ?thesis
    proof (cases "sendWindow c <s offset")
      case True
      from mem have "sendWindow (UpdateSendWindow offset c) \<le>s x" by (rule blockedReports_ge)
      with True show ?thesis
        by (simp add: UpdateSendWindow_def word_sle_eq word_sless_alt)
    next
      case False
      then have "UpdateSendWindow offset c = c" by (simp add: UpdateSendWindow_def)
      with mem Cons.prems(1) Cons.IH show ?thesis by simp
    qed
  next
    case CallIsNewlyBlocked
    with Cons.prems have "x \<in> set (blockedReports c calls)"
      by (simp add: IsNewlyBlocked_def)
    with Cons.prems(1) Cons.IH show ?thesis by blast
  qed
qed

lemma blockedReports_sorted: "sorted_wrt (<s) (blockedReports c calls)"
proof (induction calls arbitrary: c)
  case Nil
  then show ?case by simp
next
  case (Cons call calls)
  show ?case
  proof (cases call)
    case (CallAddBytesSent n)
    with Cons show ?thesis by simp
  next
    case (CallUpdateSendWindow offset)
    with Cons show ?thesis by simp
  next
    case CallIsNewlyBlocked
    show ?thesis
    proof (cases "sendWindowSize c \<noteq> 0 \<or> sendWindow c = lastBlockedAt c")
      case True
      with Cons CallIsNewlyBlocked show ?thesis by (simp add: IsNewlyBlocked_def)
    next
      case False
      let ?c' = "c\<lparr>lastBlockedAt := sendWindow c\<rparr>"
      have "\<forall>x \<in> set (blockedReports ?c' calls). sendWindow c <s x"
        using blockedReports_gt [of ?c'] by simp
      moreover have "sorted_wrt (<s) (blockedReports ?c' calls)" by (rule Cons.IH)
      ultimately show ?thesis
        using False CallIsNewlyBlocked by (simp add: IsNewlyBlocked_def)
    qed
  qed
qed

lemma sorted_wrt_sless_distinct: "sorted_wrt (<s) (xs :: 'a::len word list) \<Longrightarrow> distinct xs"
  by (induction xs) auto

text \<open>
  C4: \<open>IsNewlyBlocked\<close> returns \<open>(true, sendWindow)\<close> exactly when \<open>sendWindowSize\<close> is 0
  and \<open>sendWindow\<close> differs from \<open>lastBlockedAt\<close>, then setting \<open>lastBlockedAt\<close> to
  \<open>sendWindow\<close>; otherwise it returns \<open>(false, 0)\<close> and changes nothing. Across every
  sequence of \<open>AddBytesSent\<close>, \<open>UpdateSendWindow\<close> and \<open>IsNewlyBlocked\<close> calls, from any
  controller, the offsets reported with \<open>true\<close> strictly increase, so no \<open>sendWindow\<close>
  value is reported twice.
\<close>

theorem IsNewlyBlocked_once_per_window:
  "IsNewlyBlocked c =
     (if sendWindowSize c = 0 \<and> sendWindow c \<noteq> lastBlockedAt c
      then ((True, sendWindow c), c\<lparr>lastBlockedAt := sendWindow c\<rparr>)
      else ((False, 0), c))
   \<and> sorted_wrt (<s) (blockedReports c calls)
   \<and> distinct (blockedReports c calls)"
  by (simp add: IsNewlyBlocked_def blockedReports_sorted sorted_wrt_sless_distinct)

theorem IsNewlyBlocked_once_per_window_witness:
  "blockedReports (newBaseFlowController 100 200 1000 None)
     [CallAddBytesSent 1000, CallIsNewlyBlocked, CallIsNewlyBlocked,
      CallUpdateSendWindow 2000, CallAddBytesSent 1000, CallIsNewlyBlocked] = [1000, 2000]
   \<and> distinct (blockedReports (newBaseFlowController 100 200 1000 None)
     [CallAddBytesSent 1000, CallIsNewlyBlocked, CallIsNewlyBlocked,
      CallUpdateSendWindow 2000, CallAddBytesSent 1000, CallIsNewlyBlocked])"
  using IsNewlyBlocked_once_per_window [of "newBaseFlowController 100 200 1000 None"
      "[CallAddBytesSent 1000, CallIsNewlyBlocked, CallIsNewlyBlocked,
        CallUpdateSendWindow 2000, CallAddBytesSent 1000, CallIsNewlyBlocked]"]
  by (simp add: newBaseFlowController_def IsNewlyBlocked_def sendWindowSize_def
      AddBytesSent_def UpdateSendWindow_def word_sless_alt)

section \<open>Receiving side: window updates and auto-tuning\<close>

lemma sint_sub_64:
  fixes a b :: "64 word"
  assumes "0 \<le> sint a" "0 \<le> sint b"
  shows "sint (a - b) = sint a - sint b"
proof -
  have "sint a < 2 ^ 63" "sint b < 2 ^ 63"
    using sint_lt [of a] sint_lt [of b] by simp_all
  with assms have "- (2 ^ 63) \<le> sint a - sint b" "sint a - sint b < 2 ^ 63" by simp_all
  then show ?thesis
    by (simp add: sint_word_ariths signed_take_bit_int_eq_self)
qed

lemma sint_add_64:
  fixes a b :: "64 word"
  assumes "0 \<le> sint a" "0 \<le> sint b" "sint a + sint b < 2 ^ 63"
  shows "sint (a + b) = sint a + sint b"
  using assms by (simp add: sint_word_ariths signed_take_bit_int_eq_self)

lemma sint_windowUpdateLimit:
  assumes "0 \<le> sint w"
  shows "sint (windowUpdateLimit w) = (3 * sint w) div 4"
proof -
  have "sint w < 2 ^ 63" using sint_lt [of w] by simp
  with assms have "0 \<le> (3 * sint w) div 4" "(3 * sint w) div 4 < 2 ^ 63" by simp_all
  moreover have "(3 * sint w) sdiv 4 = (3 * sint w) div 4"
  proof (cases "sint w = 0")
    case True
    then show ?thesis by simp
  next
    case False
    with assms have "sgn (3 * sint w) = sgn (4 :: int)" by (simp add: sgn_if)
    then show ?thesis by (simp add: signed_divide_int_eq_divide_int del: sgn_mult)
  qed
  ultimately show ?thesis
    by (simp add: windowUpdateLimit_def sint_sbintrunc' signed_take_bit_int_eq_self)
qed

lemma sdiv_nonneg: "0 \<le> (k::int) \<Longrightarrow> 0 < l \<Longrightarrow> k sdiv l = k div l"
  by (cases "k = 0") (simp_all add: signed_divide_int_def sgn_if)

lemma Min_bc_cases: "Min_bc a b = a \<and> a <s b \<or> Min_bc a b = b \<and> b \<le>s a"
  by (auto simp: Min_bc_def)

lemma maybeAdjust_fields:
  "bytesRead (maybeAdjustWindowSize spanOf now rtt c) = bytesRead c"
  "receiveWindow (maybeAdjustWindowSize spanOf now rtt c) = receiveWindow c"
  "maxReceiveWindowSize (maybeAdjustWindowSize spanOf now rtt c) = maxReceiveWindowSize c"
  by (simp_all add: maybeAdjustWindowSize_def startNewAutoTuningEpoch_def Let_def)

lemma maybeAdjust_size:
  "receiveWindowSize (maybeAdjustWindowSize spanOf now rtt c) = receiveWindowSize c \<or>
   receiveWindowSize (maybeAdjustWindowSize spanOf now rtt c) =
     Min_bc (2 * receiveWindowSize c) (maxReceiveWindowSize c) \<and>
   receiveWindowSize c <s Min_bc (2 * receiveWindowSize c) (maxReceiveWindowSize c)"
  by (simp add: maybeAdjustWindowSize_def startNewAutoTuningEpoch_def Let_def)

lemma maybeAdjust_size_le_max:
  assumes "receiveWindowSize c \<le>s maxReceiveWindowSize c"
  shows "receiveWindowSize (maybeAdjustWindowSize spanOf now rtt c) \<le>s maxReceiveWindowSize c"
  using maybeAdjust_size [of spanOf now rtt c] assms
  by (auto simp: Min_bc_def word_sle_eq word_sless_alt split: if_splits)

lemma maybeAdjust_size_bounds:
  assumes "0 < sint (receiveWindowSize c)" "sint (receiveWindowSize c) \<le> 2 ^ 62"
    "sint (maxReceiveWindowSize c) \<le> 2 ^ 62"
  shows "sint (receiveWindowSize c) \<le> sint (receiveWindowSize (maybeAdjustWindowSize spanOf now rtt c))"
    and "sint (receiveWindowSize (maybeAdjustWindowSize spanOf now rtt c)) \<le> 2 ^ 62"
proof -
  let ?r = "receiveWindowSize c" and ?r' = "receiveWindowSize (maybeAdjustWindowSize spanOf now rtt c)"
  let ?m = "Min_bc (2 * ?r) (maxReceiveWindowSize c)"
  have m: "?r <s ?m \<Longrightarrow> sint ?m \<le> 2 ^ 62"
  proof -
    assume lt: "?r <s ?m"
    show "sint ?m \<le> 2 ^ 62"
    proof (cases "2 * ?r <s maxReceiveWindowSize c")
      case True
      with assms(3) show ?thesis by (simp add: Min_bc_def word_sless_alt)
    next
      case False
      with assms(3) show ?thesis by (simp add: Min_bc_def)
    qed
  qed
  from maybeAdjust_size [of spanOf now rtt c]
  show "sint ?r \<le> sint ?r'" by (auto simp: word_sless_alt)
  from maybeAdjust_size [of spanOf now rtt c] m assms(2)
  show "sint ?r' \<le> 2 ^ 62" by auto
qed

lemma getWindowUpdate_step:
  assumes inv: "offsetsInRange bound c" and bound: "bound < 2 ^ 62"
  shows "offsetsInRange bound (snd (getWindowUpdate spanOf now rtt c))"
    and "fst (getWindowUpdate spanOf now rtt c) \<noteq> 0 \<Longrightarrow>
           receiveWindow c <s fst (getWindowUpdate spanOf now rtt c)"
    and "receiveWindow c \<le>s receiveWindow (snd (getWindowUpdate spanOf now rtt c))"
    and "fst (getWindowUpdate spanOf now rtt c) \<noteq> 0 \<Longrightarrow>
           receiveWindow (snd (getWindowUpdate spanOf now rtt c)) = fst (getWindowUpdate spanOf now rtt c)"
proof -
  let ?c1 = "maybeAdjustWindowSize spanOf now rtt c"
  let ?r = "receiveWindowSize c" and ?r' = "receiveWindowSize ?c1"
  from inv have r: "0 < sint ?r" "sint ?r \<le> 2 ^ 62" and mx: "sint (maxReceiveWindowSize c) \<le> 2 ^ 62"
    and b: "0 \<le> sint (bytesRead c)" "sint (bytesRead c) \<le> bound" and w: "0 \<le> sint (receiveWindow c)"
    by (simp_all add: offsetsInRange_def)
  have r': "sint ?r \<le> sint ?r'" "sint ?r' \<le> 2 ^ 62"
    using maybeAdjust_size_bounds [OF r mx] by simp_all
  have sum: "sint (bytesRead c + ?r') = sint (bytesRead c) + sint ?r'"
    using b r r' bound by (intro sint_add_64) simp_all
  have upd: "hasWindowUpdate c \<Longrightarrow> sint (receiveWindow c) < sint (bytesRead c) + sint ?r'"
  proof -
    assume "hasWindowUpdate c"
    then have "sint (receiveWindow c) - sint (bytesRead c) \<le> (3 * sint ?r) div 4"
      using w b r by (simp add: hasWindowUpdate_def word_sle_eq sint_sub_64 sint_windowUpdateLimit)
    moreover have "(3 * sint ?r) div 4 < sint ?r" using r by simp
    ultimately show ?thesis using r' by simp
  qed
  show "offsetsInRange bound (snd (getWindowUpdate spanOf now rtt c))"
    using inv r r' b sum upd
    by (auto simp: getWindowUpdate_def Let_def offsetsInRange_def maybeAdjust_fields)
  show "fst (getWindowUpdate spanOf now rtt c) \<noteq> 0 \<Longrightarrow>
           receiveWindow c <s fst (getWindowUpdate spanOf now rtt c)"
    using sum upd
    by (auto simp: getWindowUpdate_def Let_def word_sless_alt maybeAdjust_fields split: if_splits)
  show "receiveWindow c \<le>s receiveWindow (snd (getWindowUpdate spanOf now rtt c))"
    using sum upd
    by (auto simp: getWindowUpdate_def Let_def word_sle_eq maybeAdjust_fields split: if_splits)
  show "fst (getWindowUpdate spanOf now rtt c) \<noteq> 0 \<Longrightarrow>
           receiveWindow (snd (getWindowUpdate spanOf now rtt c)) = fst (getWindowUpdate spanOf now rtt c)"
    by (auto simp: getWindowUpdate_def Let_def split: if_splits)
qed

lemma addBytesRead_step:
  assumes "offsetsInRange bound c" "0 \<le> sint n" "sint (bytesRead c) + sint n \<le> bound" "bound < 2 ^ 62"
  shows "offsetsInRange bound (addBytesRead now n c)"
    and "receiveWindow (addBytesRead now n c) = receiveWindow c"
    and "sint (bytesRead (addBytesRead now n c)) = sint (bytesRead c) + sint n"
proof -
  have "sint (bytesRead c + n) = sint (bytesRead c) + sint n"
    using assms by (intro sint_add_64) (simp_all add: offsetsInRange_def)
  then show "offsetsInRange bound (addBytesRead now n c)"
    and "sint (bytesRead (addBytesRead now n c)) = sint (bytesRead c) + sint n"
    using assms by (simp_all add: addBytesRead_def Let_def startNewAutoTuningEpoch_def offsetsInRange_def)
  show "receiveWindow (addBytesRead now n c) = receiveWindow c"
    by (simp add: addBytesRead_def Let_def startNewAutoTuningEpoch_def)
qed

lemma windowUpdates_gt:
  assumes "offsetsInRange bound c" "bound < 2 ^ 62" "readsWithin bound (sint (bytesRead c)) calls"
    "x \<in> set (windowUpdates spanOf c calls)"
  shows "receiveWindow c <s x"
  using assms
proof (induction calls arbitrary: c)
  case Nil
  then show ?case by simp
next
  case (Cons call calls)
  show ?case
  proof (cases call)
    case (CallAddBytesRead now n)
    with Cons.prems have n: "0 \<le> sint n" "sint (bytesRead c) + sint n \<le> bound"
      and rest: "readsWithin bound (sint (bytesRead c) + sint n) calls"
      and mem: "x \<in> set (windowUpdates spanOf (addBytesRead now n c) calls)" by simp_all
    note step = addBytesRead_step [OF Cons.prems(1) n Cons.prems(2), of now]
    have "receiveWindow (addBytesRead now n c) <s x"
      using step(1) Cons.prems(2) rest mem by (intro Cons.IH) (simp_all add: step(3))
    then show ?thesis by (simp add: step(2))
  next
    case (CallGetWindowUpdate now rtt)
    let ?r = "getWindowUpdate spanOf now rtt c"
    note step = getWindowUpdate_step [OF Cons.prems(1,2), of spanOf now rtt]
    have br: "bytesRead (snd ?r) = bytesRead c"
      by (simp add: getWindowUpdate_def Let_def maybeAdjust_fields)
    from Cons.prems CallGetWindowUpdate
    have rest: "readsWithin bound (sint (bytesRead (snd ?r))) calls" by (simp add: br)
    from Cons.prems(4) CallGetWindowUpdate
    have "(fst ?r \<noteq> 0 \<and> x = fst ?r) \<or> x \<in> set (windowUpdates spanOf (snd ?r) calls)"
      by (auto simp: Let_def split: if_splits)
    then show ?thesis
    proof
      assume "fst ?r \<noteq> 0 \<and> x = fst ?r"
      with step(2) show ?thesis by simp
    next
      assume "x \<in> set (windowUpdates spanOf (snd ?r) calls)"
      with step(1) Cons.prems(2) rest have "receiveWindow (snd ?r) <s x" by (intro Cons.IH)
      with step(3) show ?thesis by (simp add: word_sle_eq word_sless_alt)
    qed
  qed
qed

lemma windowUpdates_sorted:
  assumes "offsetsInRange bound c" "bound < 2 ^ 62" "readsWithin bound (sint (bytesRead c)) calls"
  shows "sorted_wrt (<s) (windowUpdates spanOf c calls)"
  using assms
proof (induction calls arbitrary: c)
  case Nil
  then show ?case by simp
next
  case (Cons call calls)
  show ?case
  proof (cases call)
    case (CallAddBytesRead now n)
    with Cons.prems have n: "0 \<le> sint n" "sint (bytesRead c) + sint n \<le> bound"
      and rest: "readsWithin bound (sint (bytesRead c) + sint n) calls" by simp_all
    note step = addBytesRead_step [OF Cons.prems(1) n Cons.prems(2), of now]
    have "sorted_wrt (<s) (windowUpdates spanOf (addBytesRead now n c) calls)"
      using step(1) Cons.prems(2) rest by (intro Cons.IH) (simp_all add: step(3))
    with CallAddBytesRead show ?thesis by simp
  next
    case (CallGetWindowUpdate now rtt)
    let ?r = "getWindowUpdate spanOf now rtt c"
    note step = getWindowUpdate_step [OF Cons.prems(1,2), of spanOf now rtt]
    have br: "bytesRead (snd ?r) = bytesRead c"
      by (simp add: getWindowUpdate_def Let_def maybeAdjust_fields)
    from Cons.prems CallGetWindowUpdate
    have rest: "readsWithin bound (sint (bytesRead (snd ?r))) calls" by (simp add: br)
    have sorted: "sorted_wrt (<s) (windowUpdates spanOf (snd ?r) calls)"
      using step(1) Cons.prems(2) rest by (intro Cons.IH)
    have "fst ?r \<noteq> 0 \<Longrightarrow> \<forall>x \<in> set (windowUpdates spanOf (snd ?r) calls). fst ?r <s x"
      using windowUpdates_gt [OF step(1) Cons.prems(2) rest] step(4) by auto
    with sorted CallGetWindowUpdate show ?thesis by (auto simp: Let_def)
  qed
qed

text \<open>
  C5, as stated, fails where the 64-bit addition wraps around: with \<open>receiveWindowSize\<close>
  100 throughout and \<open>bytesRead\<close> 161 below \<open>2 ^ 63 - 1\<close>, the first update returns
  \<open>2 ^ 63 - 61\<close> and, after 90 more bytes are read, the second returns \<open>bytesRead + 100\<close>
  wrapped to \<open>- 2 ^ 63 + 29\<close>.
\<close>

theorem windowUpdates_wrap_counterexample:
  "0 <s receiveWindowSize
     \<lparr>bytesSent = 0, sendWindow = 0, lastBlockedAt = 0,
      bytesRead = 9223372036854775647, highestReceived = 0,
      receiveWindow = 9223372036854775657, receiveWindowSize = 100,
      maxReceiveWindowSize = 100, allowWindowIncrease = None,
      epochStartTime = 0, epochStartOffset = 9223372036854775647\<rparr>
   \<and> windowUpdates (\<lambda>consumed windowSize rtt. 0)
     \<lparr>bytesSent = 0, sendWindow = 0, lastBlockedAt = 0,
      bytesRead = 9223372036854775647, highestReceived = 0,
      receiveWindow = 9223372036854775657, receiveWindowSize = 100,
      maxReceiveWindowSize = 100, allowWindowIncrease = None,
      epochStartTime = 0, epochStartOffset = 9223372036854775647\<rparr>
     [CallGetWindowUpdate 0 0, CallAddBytesRead 0 90, CallGetWindowUpdate 0 0]
     = [9223372036854775747, - 9223372036854775779]
   \<and> \<not> sorted_wrt (<s) (windowUpdates (\<lambda>consumed windowSize rtt. 0)
     \<lparr>bytesSent = 0, sendWindow = 0, lastBlockedAt = 0,
      bytesRead = 9223372036854775647, highestReceived = 0,
      receiveWindow = 9223372036854775657, receiveWindowSize = 100,
      maxReceiveWindowSize = 100, allowWindowIncrease = None,
      epochStartTime = 0, epochStartOffset = 9223372036854775647\<rparr>
     [CallGetWindowUpdate 0 0, CallAddBytesRead 0 90, CallGetWindowUpdate 0 0])"
  by (simp add: getWindowUpdate_def hasWindowUpdate_def windowUpdateLimit_def
      maybeAdjustWindowSize_def half_bc_def addBytesRead_def Let_def word_sle_eq word_sless_alt)

text \<open>
  C5, amended: for every sequence of \<open>addBytesRead\<close> and \<open>getWindowUpdate\<close> calls on a
  controller whose \<open>receiveWindowSize\<close> is positive, and whose offsets stay in the range
  of QUIC byte counts (window sizes at most \<open>2 ^ 62\<close>, counts read non-negative,
  \<open>bytesRead\<close> at most a bound below \<open>2 ^ 62\<close>, so that \<open>bytesRead + receiveWindowSize\<close>
  does not wrap), the nonzero offsets returned by \<open>getWindowUpdate\<close> strictly increase.
\<close>

theorem windowUpdates_strictly_increasing:
  assumes "offsetsInRange bound c" and "bound < 2 ^ 62"
    and "readsWithin bound (sint (bytesRead c)) calls"
  shows "sorted_wrt (<s) (windowUpdates spanOf c calls)"
  using assms by (rule windowUpdates_sorted)

theorem windowUpdates_strictly_increasing_witness:
  "offsetsInRange (2 ^ 62 - 1) (newBaseFlowController 100 200 0 None)
   \<and> readsWithin (2 ^ 62 - 1) (sint (bytesRead (newBaseFlowController 100 200 0 None)))
       [CallAddBytesRead 0 76, CallGetWindowUpdate 1 0, CallAddBytesRead 2 80,
        CallGetWindowUpdate 3 0]
   \<and> windowUpdates (\<lambda>consumed windowSize rtt. 0) (newBaseFlowController 100 200 0 None)
       [CallAddBytesRead 0 76, CallGetWindowUpdate 1 0, CallAddBytesRead 2 80,
        CallGetWindowUpdate 3 0] = [176, 256]
   \<and> sorted_wrt (<s) (windowUpdates (\<lambda>consumed windowSize rtt. 0)
       (newBaseFlowController 100 200 0 None)
       [CallAddBytesRead 0 76, CallGetWindowUpdate 1 0, CallAddBytesRead 2 80,
        CallGetWindowUpdate 3 0])"
proof -
  have range: "offsetsInRange (2 ^ 62 - 1) (newBaseFlowController 100 200 0 None)"
    by (simp add: offsetsInRange_def newBaseFlowController_def)
  have reads: "readsWithin (2 ^ 62 - 1) (sint (bytesRead (newBaseFlowController 100 200 0 None)))
       [CallAddBytesRead 0 76, CallGetWindowUpdate 1 0, CallAddBytesRead 2 80,
        CallGetWindowUpdate 3 0]"
    by (simp add: newBaseFlowController_def)
  have run: "windowUpdates (\<lambda>consumed windowSize rtt. 0) (newBaseFlowController 100 200 0 None)
       [CallAddBytesRead 0 76, CallGetWindowUpdate 1 0, CallAddBytesRead 2 80,
        CallGetWindowUpdate 3 0] = [176, 256]"
    by (simp add: newBaseFlowController_def getWindowUpdate_def hasWindowUpdate_def
        windowUpdateLimit_def maybeAdjustWindowSize_def half_bc_def addBytesRead_def
        startNewAutoTuningEpoch_def Let_def word_sle_eq word_sless_alt)
  from windowUpdates_strictly_increasing [OF range _ reads] range reads run
  show ?thesis by simp
qed

text \<open>
  The branches of \<open>maybeAdjustWindowSize\<close>, for every \<open>spanOf\<close>.
\<close>

lemma maybeAdjustWindowSize_branches:
  "(half_bc (receiveWindowSize c) <s bytesRead c - epochStartOffset c \<and> rtt \<noteq> 0 \<longrightarrow>
      maybeAdjustWindowSize spanOf now rtt c =
        c\<lparr>receiveWindowSize :=
             (if now - epochStartTime c
                   < spanOf (bytesRead c - epochStartOffset c) (receiveWindowSize c) rtt
                 \<and> receiveWindowSize c
                   <s Min_bc (2 * receiveWindowSize c) (maxReceiveWindowSize c)
                 \<and> (case allowWindowIncrease c of
                      None \<Rightarrow> True
                    | Some allow \<Rightarrow>
                        allow (Min_bc (2 * receiveWindowSize c) (maxReceiveWindowSize c)
                                 - receiveWindowSize c))
              then Min_bc (2 * receiveWindowSize c) (maxReceiveWindowSize c)
              else receiveWindowSize c),
           epochStartTime := now, epochStartOffset := bytesRead c\<rparr>)
   \<and> (bytesRead c - epochStartOffset c \<le>s half_bc (receiveWindowSize c) \<or> rtt = 0 \<longrightarrow>
        maybeAdjustWindowSize spanOf now rtt c = c)"
  by (auto simp: maybeAdjustWindowSize_def startNewAutoTuningEpoch_def Let_def
      word_sle_eq word_sless_alt)

subsection \<open>The rounding of \<open>float64\<close> and the span of an epoch\<close>

lemma pow2_powi: "pow2 e = 2 powi e"
  by (simp add: pow2_def power_int_def field_simps)

lemma pow2_pos: "0 < pow2 e"
  by (simp add: pow2_def)

lemma pow2_add: "pow2 (a + b) = pow2 a * pow2 b"
  by (simp add: pow2_powi power_int_add)

lemma pow2_nat: "0 \<le> e \<Longrightarrow> pow2 e = 2 ^ nat e"
  by (simp add: pow2_def)

lemma roundHalfEven_error: "\<bar>of_int (roundHalfEven y) - y\<bar> \<le> 1 / 2"
proof -
  have "of_int \<lfloor>y\<rfloor> \<le> y" "y < of_int \<lfloor>y\<rfloor> + 1" by linarith+
  then show ?thesis by (auto simp: roundHalfEven_def Let_def)
qed

lemma float64_error:
  assumes "1 / 2 ^ 64 \<le> x"
  shows "\<bar>float64 x - x\<bar> \<le> x / 2 ^ 53"
proof -
  define n where "n = \<lfloor>x * 2 ^ 64\<rfloor>"
  define b where "b = bitlen n"
  define e where "e = b - 117"
  define y where "y = x / pow2 e"
  from assms have "1 \<le> x * 2 ^ 64" by (simp add: field_simps)
  then have n: "0 < n" unfolding n_def by linarith
  from bitlen_bounds [OF n] have lo: "2 ^ nat (b - 1) \<le> n" and hi: "n < 2 ^ nat b"
    by (simp_all add: b_def)
  from n have b: "1 \<le> b" unfolding b_def by (simp add: bitlen_alt_def)
  have "(of_int n :: rat) \<le> x * 2 ^ 64" unfolding n_def by simp
  with lo have "(2 :: rat) ^ nat (b - 1) \<le> x * 2 ^ 64"
    by (metis (mono_tags) of_int_le_iff of_int_numeral of_int_power order_trans)
  then have "pow2 (b - 1) \<le> x * pow2 64" using b by (simp add: pow2_nat)
  moreover have "pow2 (b - 1) = pow2 52 * pow2 e * pow2 64"
    unfolding e_def by (simp flip: pow2_add)
  ultimately have "pow2 52 * pow2 e \<le> x" using pow2_pos [of 64] by simp
  then have x: "2 ^ 52 * pow2 e \<le> x" by (simp add: pow2_nat)
  have fl: "float64 x = of_int (roundHalfEven y) * pow2 e"
    by (simp add: float64_def Let_def y_def e_def b_def n_def)
  have xy: "x = y * pow2 e" using pow2_pos [of e] by (simp add: y_def)
  have "float64 x - x = (of_int (roundHalfEven y) - y) * pow2 e"
    unfolding fl using xy by (simp add: left_diff_distrib)
  then have "\<bar>float64 x - x\<bar> = \<bar>of_int (roundHalfEven y) - y\<bar> * pow2 e"
    using pow2_pos [of e] by (simp add: abs_mult)
  also have "\<dots> \<le> 1 / 2 * pow2 e"
    using roundHalfEven_error [of y] pow2_pos [of e] by (intro mult_right_mono) simp_all
  also have "\<dots> \<le> x / 2 ^ 53" using x by (simp add: field_simps)
  finally show ?thesis .
qed

lemma float64_bounds:
  assumes "1 / 2 ^ 64 \<le> x"
  shows "x * (1 - 1 / 2 ^ 53) \<le> float64 x" "float64 x \<le> x * (1 + 1 / 2 ^ 53)"
proof -
  from float64_error [OF assms]
  have "float64 x - x \<le> x / 2 ^ 53" "x - float64 x \<le> x / 2 ^ 53" by linarith+
  then show "x * (1 - 1 / 2 ^ 53) \<le> float64 x" "float64 x \<le> x * (1 + 1 / 2 ^ 53)"
    by (simp_all add: algebra_simps)
qed

lemma rounding_constants:
  "(1 + 1 / 2 ^ 53) ^ 5 / (1 - 1 / 2 ^ 53) \<le> (1 + 1 / 2 ^ 50 :: rat)"
  "(1 - 1 / 2 ^ 50 :: rat) \<le> (1 - 1 / 2 ^ 53) ^ 5 / (1 + 1 / 2 ^ 53)"
  by (simp_all add: power_divide)

lemma tuningSpan_bounds:
  fixes c s r :: int
  assumes c: "0 < c" and s: "0 < s" "s < 2 ^ 63" and r: "0 < r"
  defines "f \<equiv> float64 (float64 (4 * float64 (float64 (of_int c) / float64 (of_int s)))
                      * float64 (of_int r))"
  shows "(4 * of_int c * of_int r / of_int s) * (1 - 1 / 2 ^ 50) \<le> f"
    and "f \<le> (4 * of_int c * of_int r / of_int s) * (1 + 1 / 2 ^ 50)"
proof -
  define a b :: rat where "a = 1 - 1 / 2 ^ 53" and "b = 1 + 1 / 2 ^ 53"
  define C S R :: rat where "C = of_int c" and "S = of_int s" and "R = of_int r"
  define fc fs fr where "fc = float64 C" and "fs = float64 S" and "fr = float64 R"
  define q where "q = fc / fs"
  define fq where "fq = float64 q"
  define f4 where "f4 = float64 (4 * fq)"
  define p where "p = f4 * fr"
  have f: "f = float64 p"
    by (simp add: f_def p_def f4_def fq_def q_def fc_def fs_def fr_def C_def S_def R_def)
  have ab: "0 < a" "a \<le> 1" "1 \<le> b" "1 / 4 \<le> a" "1 / 4 \<le> a * a" "1 / 4 \<le> a * a * a"
    "b \<le> 2 * a"
    by (simp_all add: a_def b_def)
  have CSR: "1 \<le> C" "1 \<le> S" "S \<le> 2 ^ 63" "1 \<le> R"
    using c s r by (simp_all add: C_def S_def R_def)
  have small: "(1 :: rat) / 2 ^ 64 \<le> 1" by simp
  have fc: "C * a \<le> fc" "fc \<le> C * b"
    unfolding fc_def a_def b_def using CSR(1) small by (intro float64_bounds; linarith)+
  have fs: "S * a \<le> fs" "fs \<le> S * b"
    unfolding fs_def a_def b_def using CSR(2) small by (intro float64_bounds; linarith)+
  have fr: "R * a \<le> fr" "fr \<le> R * b"
    unfolding fr_def a_def b_def using CSR(4) small by (intro float64_bounds; linarith)+
  have pos: "0 < C * a" "0 < S * a" "0 < R * a" using ab(1) CSR by simp_all
  have q: "C * a / (S * b) \<le> q" "q \<le> C * b / (S * a)"
    unfolding q_def using fc fs pos by (auto intro!: frac_le)
  have Sb: "0 < S * b" using ab CSR by simp
  have "S * b \<le> 2 ^ 63 * (2 * a)" using CSR(3) ab by (intro mult_mono) simp_all
  also have "\<dots> \<le> 2 ^ 64 * (C * a)" using CSR(1) ab(1) by simp
  finally have "1 / 2 ^ 64 \<le> C * a / (S * b)" using Sb by (simp add: field_simps)
  from this q(1) have qr: "1 / 2 ^ 64 \<le> q" by (rule order_trans)
  then have qpos: "0 < q" by (rule less_le_trans [rotated]) simp
  have fq: "q * a \<le> fq" "fq \<le> q * b"
    unfolding fq_def a_def b_def using qr by (intro float64_bounds; assumption)+
  have "1 / 2 ^ 64 * (1 / 4) \<le> q * a" using qr ab(4) by (intro mult_mono) simp_all
  with fq(1) have fqr: "1 / 2 ^ 64 \<le> 4 * fq" by simp
  then have fqpos: "0 < fq" by simp
  have f4: "4 * fq * a \<le> f4" "f4 \<le> 4 * fq * b"
    unfolding f4_def a_def b_def using fqr by (intro float64_bounds; assumption)+
  have lo4: "4 * (q * (a * a)) \<le> f4"
  proof -
    have "4 * (q * a) * a \<le> 4 * fq * a" using fq(1) ab(1) by simp
    with f4(1) show ?thesis by (simp add: ac_simps)
  qed
  have hi4: "f4 \<le> 4 * (q * (b * b))"
  proof -
    have "4 * fq * b \<le> 4 * (q * b) * b" using fq(2) ab(3) by simp
    with f4(2) show ?thesis by (simp add: ac_simps)
  qed
  have "1 / 2 ^ 64 * (1 / 4) \<le> q * (a * a)" using qr ab(5) by (intro mult_mono) simp_all
  with lo4 have f4r: "1 / 2 ^ 64 \<le> f4" by simp
  then have f4pos: "0 < f4" by (rule less_le_trans [rotated]) simp
  have frpos: "0 < fr" using fr(1) pos(3) by simp
  have lop: "4 * (q * (a * a)) * (R * a) \<le> p"
    unfolding p_def using lo4 fr(1) pos(3) qpos ab(1) f4pos by (intro mult_mono) simp_all
  have hip: "p \<le> 4 * (q * (b * b)) * (R * b)"
    unfolding p_def using hi4 fr(2) f4pos frpos qpos ab(3) by (intro mult_mono) simp_all
  have "1 / 2 ^ 64 * 1 \<le> (4 * (q * (a * a)) * a) * R"
  proof (intro mult_mono)
    have "1 / 2 ^ 64 * (1 / 4) \<le> q * (a * a * a)" using qr ab(6) by (intro mult_mono) simp_all
    then show "1 / 2 ^ 64 \<le> 4 * (q * (a * a)) * a" by (simp add: ac_simps)
  qed (use CSR(4) qpos ab(1) in simp_all)
  with lop have pr: "1 / 2 ^ 64 \<le> p" by (simp add: ac_simps)
  have fp: "p * a \<le> f" "f \<le> p * b"
    unfolding f a_def b_def using pr by (intro float64_bounds; assumption)+
  define T where "T = 4 * C * R / S"
  have Tpos: "0 < T" using CSR by (simp add: T_def)
  have Spos: "0 < S" using CSR(2) by simp
  have lower: "T * (a ^ 5 / b) \<le> f"
  proof -
    have "4 * (C * a / (S * b) * (a * a)) * (R * a) \<le> 4 * (q * (a * a)) * (R * a)"
      using q(1) ab(1) CSR(4) by (intro mult_right_mono mult_left_mono) simp_all
    also note lop
    finally have "4 * (C * a / (S * b) * (a * a)) * (R * a) \<le> p" .
    then have "4 * (C * a / (S * b) * (a * a)) * (R * a) * a \<le> p * a"
      using ab(1) by (intro mult_right_mono) simp_all
    also note fp(1)
    also have "4 * (C * a / (S * b) * (a * a)) * (R * a) * a = T * (a ^ 5 / b)"
      using Spos ab by (simp add: T_def power_def field_simps)
    finally show ?thesis .
  qed
  have upper: "f \<le> T * (b ^ 5 / a)"
  proof -
    note fp(2)
    also have "p * b \<le> 4 * (q * (b * b)) * (R * b) * b"
      using hip ab(3) by (intro mult_right_mono) simp_all
    also have "\<dots> \<le> 4 * (C * b / (S * a) * (b * b)) * (R * b) * b"
      using q(2) ab(3) CSR(4) by (intro mult_right_mono mult_left_mono) simp_all
    also have "\<dots> = T * (b ^ 5 / a)"
      using Spos ab by (simp add: T_def power_def field_simps)
    finally show ?thesis .
  qed
  have "T * (1 - 1 / 2 ^ 50) \<le> T * (a ^ 5 / b)"
    using rounding_constants(2) Tpos unfolding a_def b_def by (intro mult_left_mono) simp_all
  with lower show "(4 * of_int c * of_int r / of_int s) * (1 - 1 / 2 ^ 50) \<le> f"
    by (simp add: T_def C_def S_def R_def)
  have "T * (b ^ 5 / a) \<le> T * (1 + 1 / 2 ^ 50)"
    using rounding_constants(1) Tpos unfolding a_def b_def by (intro mult_left_mono) simp_all
  with upper show "f \<le> (4 * of_int c * of_int r / of_int s) * (1 + 1 / 2 ^ 50)"
    by (simp add: T_def C_def S_def R_def)
qed

lemma sint_half_bc:
  assumes "0 \<le> sint w"
  shows "sint (half_bc w) = sint w div 2"
proof -
  have "sint w < 2 ^ 63" using sint_lt [of w] by simp
  with assms have "0 \<le> sint w div 2" "sint w div 2 < 2 ^ 63" by simp_all
  with assms show ?thesis
    by (simp add: half_bc_def sdiv_nonneg sint_sbintrunc' signed_take_bit_int_eq_self)
qed

lemma tuningSpan_bracket:
  assumes half: "half_bc windowSize <s consumed" and size: "0 <s windowSize" and rtt: "0 < rtt"
  shows "4 * (rat_of_int (sint consumed) / rat_of_int (sint windowSize)) * rat_of_int rtt
           * (1 - 1 / 2 ^ 50) - 1
           < rat_of_int (tuningSpan consumed windowSize rtt)"
    and "rat_of_int (tuningSpan consumed windowSize rtt)
           \<le> 4 * (rat_of_int (sint consumed) / rat_of_int (sint windowSize)) * rat_of_int rtt
               * (1 + 1 / 2 ^ 50)"
proof -
  from size have s: "0 < sint windowSize" by (simp add: word_sless_alt)
  then have "0 \<le> sint (half_bc windowSize)" by (simp add: sint_half_bc)
  with half have c: "0 < sint consumed" by (simp add: word_sless_alt)
  have s63: "sint windowSize < 2 ^ 63" using sint_lt [of windowSize] by simp
  define f where "f = float64 (float64 (4 * float64 (float64 (rat_of_int (sint consumed))
                / float64 (rat_of_int (sint windowSize)))) * float64 (rat_of_int rtt))"
  define T where "T = 4 * (rat_of_int (sint consumed) / rat_of_int (sint windowSize))
                        * rat_of_int rtt"
  have T: "T = 4 * rat_of_int (sint consumed) * rat_of_int rtt / rat_of_int (sint windowSize)"
    unfolding T_def by (simp only: times_divide_eq_right times_divide_eq_left)
  have b: "T * (1 - 1 / 2 ^ 50) \<le> f" "f \<le> T * (1 + 1 / 2 ^ 50)"
    unfolding T f_def by (rule tuningSpan_bounds [OF c s s63 rtt])+
  have span: "tuningSpan consumed windowSize rtt = \<lfloor>f\<rfloor>"
    unfolding tuningSpan_def Let_def f_def ..
  have fl: "f - 1 < rat_of_int \<lfloor>f\<rfloor>" "rat_of_int \<lfloor>f\<rfloor> \<le> f" by linarith+
  from b(1) fl(1) have "T * (1 - 1 / 2 ^ 50) - 1 < rat_of_int \<lfloor>f\<rfloor>" by linarith
  then show "4 * (rat_of_int (sint consumed) / rat_of_int (sint windowSize)) * rat_of_int rtt
           * (1 - 1 / 2 ^ 50) - 1
           < rat_of_int (tuningSpan consumed windowSize rtt)"
    unfolding span T_def .
  from b(2) fl(2) have "rat_of_int \<lfloor>f\<rfloor> \<le> T * (1 + 1 / 2 ^ 50)" by linarith
  then show "rat_of_int (tuningSpan consumed windowSize rtt)
           \<le> 4 * (rat_of_int (sint consumed) / rat_of_int (sint windowSize)) * rat_of_int rtt
               * (1 + 1 / 2 ^ 50)"
    unfolding span T_def .
qed

lemma tuningSpan_values:
  "tuningSpan 82 100 10000000 = 32799999" "tuningSpan 76 100 1 = 3" "tuningSpan 76 100 10 = 30"
  by code_simp+

text \<open>
  C6, as stated, fails: the time since the epoch started is not compared with the product
  \<open>4 * (consumed / receiveWindowSize) * RTT\<close> but with \<open>time.Duration\<close> of the
  \<open>float64\<close> product, a whole number of nanoseconds that can lie below it. With 82 of a
  window of 100 consumed and an RTT of 10 ms the product is 32800000 ns, the source computes
  32799999.999999996 and compares with 32799999: after 32799999 ns, which is below the
  product, the window of 100 is kept, though 200 exceeds it and no callback is set. With 76
  of 100 consumed and an RTT of 1 ns the product 3.04 becomes 3, and after 3 ns the window
  is kept.
\<close>

theorem maybeAdjustWindowSize_threshold_counterexample:
  "half_bc (receiveWindowSize ((newBaseFlowController 100 200 0 None)\<lparr>bytesRead := 82\<rparr>))
     <s bytesRead ((newBaseFlowController 100 200 0 None)\<lparr>bytesRead := 82\<rparr>)
        - epochStartOffset ((newBaseFlowController 100 200 0 None)\<lparr>bytesRead := 82\<rparr>)
   \<and> rat_of_int (32799999 - epochStartTime ((newBaseFlowController 100 200 0 None)\<lparr>bytesRead := 82\<rparr>))
       < 4 * (82 / 100) * 10000000
   \<and> tuningSpan 82 100 10000000 = 32799999
   \<and> receiveWindowSize ((newBaseFlowController 100 200 0 None)\<lparr>bytesRead := 82\<rparr>)
       <s Min_bc (2 * receiveWindowSize ((newBaseFlowController 100 200 0 None)\<lparr>bytesRead := 82\<rparr>))
            (maxReceiveWindowSize ((newBaseFlowController 100 200 0 None)\<lparr>bytesRead := 82\<rparr>))
   \<and> maybeAdjustWindowSize tuningSpan 32799999 10000000
        ((newBaseFlowController 100 200 0 None)\<lparr>bytesRead := 82\<rparr>)
      = (newBaseFlowController 100 200 0 None)
          \<lparr>bytesRead := 82, epochStartTime := 32799999, epochStartOffset := 82\<rparr>
   \<and> rat_of_int (3 - epochStartTime ((newBaseFlowController 100 200 0 None)\<lparr>bytesRead := 76\<rparr>))
       < 4 * (76 / 100) * 1
   \<and> tuningSpan 76 100 1 = 3
   \<and> maybeAdjustWindowSize tuningSpan 3 1
        ((newBaseFlowController 100 200 0 None)\<lparr>bytesRead := 76\<rparr>)
      = (newBaseFlowController 100 200 0 None)
          \<lparr>bytesRead := 76, epochStartTime := 3, epochStartOffset := 76\<rparr>"
  using tuningSpan_values
  by (simp add: maybeAdjustWindowSize_def startNewAutoTuningEpoch_def newBaseFlowController_def
      half_bc_def Min_bc_def word_sless_alt word_sle_eq Let_def)

text \<open>
  C6, amended: when at most half the window was consumed since the epoch started, or the
  RTT is zero, \<open>maybeAdjustWindowSize\<close> changes nothing. When more than half was consumed,
  for a positive window size and a positive RTT with
  \<open>4 * (consumed / receiveWindowSize) * RTT\<close> below \<open>2 ^ 62\<close>, the new size
  \<open>min (2 * receiveWindowSize) maxReceiveWindowSize\<close> is adopted exactly when the time
  since the epoch started is below \<open>tuningSpan\<close>, the new size exceeds the current one and
  the callback, if there is one, approves the difference; a new epoch starts at \<open>now\<close> with
  the current \<open>bytesRead\<close> whether or not the size changed. \<open>tuningSpan\<close>, the product
  as the source computes it in \<open>float64\<close> and cuts to whole nanoseconds, is at most the
  product \<open>4 * (consumed / receiveWindowSize) * RTT\<close> times \<open>1 + 2 ^ -50\<close> and more
  than the product times \<open>1 - 2 ^ -50\<close> less 1.
\<close>

theorem maybeAdjustWindowSize_tuning:
  "(bytesRead c - epochStartOffset c \<le>s half_bc (receiveWindowSize c) \<or> rtt = 0 \<longrightarrow>
      maybeAdjustWindowSize tuningSpan now rtt c = c)
   \<and> (half_bc (receiveWindowSize c) <s bytesRead c - epochStartOffset c
        \<and> 0 <s receiveWindowSize c \<and> 0 < rtt \<and> rtt < 2 ^ 63
        \<and> 4 * sint (bytesRead c - epochStartOffset c) * rtt < 2 ^ 62 * sint (receiveWindowSize c) \<longrightarrow>
      maybeAdjustWindowSize tuningSpan now rtt c =
        c\<lparr>receiveWindowSize :=
             (if now - epochStartTime c
                   < tuningSpan (bytesRead c - epochStartOffset c) (receiveWindowSize c) rtt
                 \<and> receiveWindowSize c
                   <s Min_bc (2 * receiveWindowSize c) (maxReceiveWindowSize c)
                 \<and> (case allowWindowIncrease c of
                      None \<Rightarrow> True
                    | Some allow \<Rightarrow>
                        allow (Min_bc (2 * receiveWindowSize c) (maxReceiveWindowSize c)
                                 - receiveWindowSize c))
              then Min_bc (2 * receiveWindowSize c) (maxReceiveWindowSize c)
              else receiveWindowSize c),
           epochStartTime := now, epochStartOffset := bytesRead c\<rparr>
      \<and> 4 * (rat_of_int (sint (bytesRead c - epochStartOffset c))
               / rat_of_int (sint (receiveWindowSize c))) * rat_of_int rtt * (1 - 1 / 2 ^ 50) - 1
          < rat_of_int (tuningSpan (bytesRead c - epochStartOffset c) (receiveWindowSize c) rtt)
      \<and> rat_of_int (tuningSpan (bytesRead c - epochStartOffset c) (receiveWindowSize c) rtt)
          \<le> 4 * (rat_of_int (sint (bytesRead c - epochStartOffset c))
               / rat_of_int (sint (receiveWindowSize c))) * rat_of_int rtt * (1 + 1 / 2 ^ 50))"
proof (intro conjI impI)
  assume "bytesRead c - epochStartOffset c \<le>s half_bc (receiveWindowSize c) \<or> rtt = 0"
  then show "maybeAdjustWindowSize tuningSpan now rtt c = c"
    using maybeAdjustWindowSize_branches [of c rtt tuningSpan now] by simp
next
  assume a: "half_bc (receiveWindowSize c) <s bytesRead c - epochStartOffset c
        \<and> 0 <s receiveWindowSize c \<and> 0 < rtt \<and> rtt < 2 ^ 63
        \<and> 4 * sint (bytesRead c - epochStartOffset c) * rtt < 2 ^ 62 * sint (receiveWindowSize c)"
  then show "maybeAdjustWindowSize tuningSpan now rtt c =
        c\<lparr>receiveWindowSize :=
             (if now - epochStartTime c
                   < tuningSpan (bytesRead c - epochStartOffset c) (receiveWindowSize c) rtt
                 \<and> receiveWindowSize c
                   <s Min_bc (2 * receiveWindowSize c) (maxReceiveWindowSize c)
                 \<and> (case allowWindowIncrease c of
                      None \<Rightarrow> True
                    | Some allow \<Rightarrow>
                        allow (Min_bc (2 * receiveWindowSize c) (maxReceiveWindowSize c)
                                 - receiveWindowSize c))
              then Min_bc (2 * receiveWindowSize c) (maxReceiveWindowSize c)
              else receiveWindowSize c),
           epochStartTime := now, epochStartOffset := bytesRead c\<rparr>"
    using maybeAdjustWindowSize_branches [of c rtt tuningSpan now] by simp
  from a show "4 * (rat_of_int (sint (bytesRead c - epochStartOffset c))
               / rat_of_int (sint (receiveWindowSize c))) * rat_of_int rtt * (1 - 1 / 2 ^ 50) - 1
          < rat_of_int (tuningSpan (bytesRead c - epochStartOffset c) (receiveWindowSize c) rtt)"
    by (intro tuningSpan_bracket) simp_all
  from a show "rat_of_int (tuningSpan (bytesRead c - epochStartOffset c) (receiveWindowSize c) rtt)
          \<le> 4 * (rat_of_int (sint (bytesRead c - epochStartOffset c))
               / rat_of_int (sint (receiveWindowSize c))) * rat_of_int rtt * (1 + 1 / 2 ^ 50)"
    by (intro tuningSpan_bracket) simp_all
qed

theorem maybeAdjustWindowSize_tuning_witness:
  "half_bc (receiveWindowSize ((newBaseFlowController 100 200 0 None)\<lparr>bytesRead := 76\<rparr>))
     <s bytesRead ((newBaseFlowController 100 200 0 None)\<lparr>bytesRead := 76\<rparr>)
        - epochStartOffset ((newBaseFlowController 100 200 0 None)\<lparr>bytesRead := 76\<rparr>)
   \<and> 0 <s receiveWindowSize ((newBaseFlowController 100 200 0 None)\<lparr>bytesRead := 76\<rparr>)
   \<and> 4 * sint (76 :: 64 word) * 10 < 2 ^ 62 * sint (100 :: 64 word)
   \<and> tuningSpan 76 100 10 = 30
   \<and> maybeAdjustWindowSize tuningSpan 1 10
        ((newBaseFlowController 100 200 0 None)\<lparr>bytesRead := 76\<rparr>)
      = (newBaseFlowController 100 200 0 None)
          \<lparr>bytesRead := 76, receiveWindowSize := 200, epochStartTime := 1,
           epochStartOffset := 76\<rparr>
   \<and> maybeAdjustWindowSize tuningSpan 30 10
        ((newBaseFlowController 100 200 0 None)\<lparr>bytesRead := 76\<rparr>)
      = (newBaseFlowController 100 200 0 None)
          \<lparr>bytesRead := 76, epochStartTime := 30, epochStartOffset := 76\<rparr>
   \<and> 4 * (76 / 100) * 10 * (1 - 1 / 2 ^ 50) - 1 < rat_of_int 30
   \<and> rat_of_int 30 \<le> 4 * (76 / 100) * 10 * (1 + 1 / 2 ^ 50)
   \<and> maybeAdjustWindowSize tuningSpan 1 0
        ((newBaseFlowController 100 200 0 None)\<lparr>bytesRead := 76\<rparr>)
      = (newBaseFlowController 100 200 0 None)\<lparr>bytesRead := 76\<rparr>"
  using maybeAdjustWindowSize_tuning
    [of "(newBaseFlowController 100 200 0 None)\<lparr>bytesRead := 76\<rparr>" 10 1]
    maybeAdjustWindowSize_tuning
    [of "(newBaseFlowController 100 200 0 None)\<lparr>bytesRead := 76\<rparr>" 10 30]
    maybeAdjustWindowSize_tuning
    [of "(newBaseFlowController 100 200 0 None)\<lparr>bytesRead := 76\<rparr>" 0 1]
    tuningSpan_values(3)
  by (simp add: newBaseFlowController_def half_bc_def Min_bc_def word_sless_alt word_sle_eq)

text \<open>
  C10: if \<open>receiveWindowSize\<close> is at most \<open>maxReceiveWindowSize\<close> before
  \<open>getWindowUpdate\<close> (and so before \<open>maybeAdjustWindowSize\<close>), it is so afterwards: the
  cap is not changed, and the size is either kept or set to
  \<open>min (2 * receiveWindowSize) maxReceiveWindowSize\<close>.
\<close>

theorem receiveWindowSize_capped:
  assumes "receiveWindowSize c \<le>s maxReceiveWindowSize c"
  shows "receiveWindowSize (snd (getWindowUpdate spanOf now rtt c))
           \<le>s maxReceiveWindowSize (snd (getWindowUpdate spanOf now rtt c))
         \<and> maxReceiveWindowSize (snd (getWindowUpdate spanOf now rtt c)) = maxReceiveWindowSize c
         \<and> receiveWindowSize (maybeAdjustWindowSize spanOf now rtt c)
             \<le>s maxReceiveWindowSize (maybeAdjustWindowSize spanOf now rtt c)
         \<and> (receiveWindowSize (maybeAdjustWindowSize spanOf now rtt c) = receiveWindowSize c
             \<or> receiveWindowSize (maybeAdjustWindowSize spanOf now rtt c)
                 = Min_bc (2 * receiveWindowSize c) (maxReceiveWindowSize c))"
proof -
  have "receiveWindowSize (maybeAdjustWindowSize spanOf now rtt c) \<le>s maxReceiveWindowSize c"
    using assms by (rule maybeAdjust_size_le_max)
  moreover have "receiveWindowSize (snd (getWindowUpdate spanOf now rtt c))
      = (if hasWindowUpdate c then receiveWindowSize (maybeAdjustWindowSize spanOf now rtt c)
         else receiveWindowSize c)"
    by (simp add: getWindowUpdate_def Let_def)
  moreover have "maxReceiveWindowSize (snd (getWindowUpdate spanOf now rtt c))
      = maxReceiveWindowSize c"
    by (simp add: getWindowUpdate_def Let_def maybeAdjust_fields)
  ultimately show ?thesis
    using assms maybeAdjust_size [of spanOf now rtt c] by (auto simp: maybeAdjust_fields)
qed

theorem receiveWindowSize_capped_witness:
  "receiveWindowSize ((newBaseFlowController 100 150 0 None)\<lparr>bytesRead := 76\<rparr>)
     \<le>s maxReceiveWindowSize ((newBaseFlowController 100 150 0 None)\<lparr>bytesRead := 76\<rparr>)
   \<and> receiveWindowSize (snd (getWindowUpdate
        (\<lambda>consumed windowSize rtt. 4 * sint consumed * rtt div sint windowSize) 1 10
        ((newBaseFlowController 100 150 0 None)\<lparr>bytesRead := 76\<rparr>))) = 150
   \<and> receiveWindowSize (snd (getWindowUpdate
        (\<lambda>consumed windowSize rtt. 4 * sint consumed * rtt div sint windowSize) 1 10
        ((newBaseFlowController 100 150 0 None)\<lparr>bytesRead := 76\<rparr>)))
     \<le>s maxReceiveWindowSize (snd (getWindowUpdate
        (\<lambda>consumed windowSize rtt. 4 * sint consumed * rtt div sint windowSize) 1 10
        ((newBaseFlowController 100 150 0 None)\<lparr>bytesRead := 76\<rparr>)))"
proof -
  have le: "receiveWindowSize ((newBaseFlowController 100 150 0 None)\<lparr>bytesRead := 76\<rparr>)
     \<le>s maxReceiveWindowSize ((newBaseFlowController 100 150 0 None)\<lparr>bytesRead := 76\<rparr>)"
    by (simp add: newBaseFlowController_def word_sle_eq)
  have run: "receiveWindowSize (snd (getWindowUpdate
        (\<lambda>consumed windowSize rtt. 4 * sint consumed * rtt div sint windowSize) 1 10
        ((newBaseFlowController 100 150 0 None)\<lparr>bytesRead := 76\<rparr>))) = 150"
    by (simp add: newBaseFlowController_def getWindowUpdate_def hasWindowUpdate_def
        windowUpdateLimit_def maybeAdjustWindowSize_def half_bc_def Min_bc_def
        startNewAutoTuningEpoch_def Let_def word_sle_eq word_sless_alt)
  from receiveWindowSize_capped [OF le] le run show ?thesis by blast
qed

section \<open>The frame sorter: evaluation and the stages of push\<close>

text \<open>The equations that evaluate the sorter on a concrete input.\<close>

lemmas sorter_eval =
  Push_def push_def pushInto_def placeFrame_def alignStart_def updateStartGap_def consumeBetween_def
  alignEnd_def updateEndGap_def storeFrame_def Pop_def newFrameSorter_def quicGo_def
  endGapOf_def replaceShorter.simps deleteConsecutive.simps removeGap_def
  setStart_def setEnd_def liveGaps_def insertAfter_def fire_def entryLen_def sliceTo_def
  sliceFrom_def List.map_filter_def Let_def

subsection \<open>The first loop\<close>

lemma replaceShorter_True:
  "replaceShorter q data start endPos pos True fired = WalkDone q' d e r c f \<Longrightarrow> r"
proof (induction q data start endPos pos "True" fired rule: replaceShorter.induct)
  case (1 q data start endPos pos fired)
  show ?case
  proof (cases "map_of q pos")
    case None
    with "1.prems" show ?thesis by (simp add: replaceShorter.simps)
  next
    case (Some oldEntry)
    show ?thesis
    proof (cases "endPos - pos > entryLen oldEntry \<or> endPos - pos = entryLen oldEntry")
      case True
      with Some "1.prems" "1.hyps" show ?thesis
        by (simp add: replaceShorter.simps [of q]) 
    next
      case False
      with Some "1.prems" show ?thesis
        by (simp add: replaceShorter.simps [of q] split: option.splits)
    qed
  qed
qed

lemma replaceShorter_not_replaced:
  assumes "replaceShorter q data start endPos pos False fired = WalkDone q' d e False c f"
  shows "q' = q \<and> d = data \<and> e = endPos \<and> \<not> c \<and> f = fired \<and> map_of q pos = None"
proof (cases "map_of q pos")
  case None
  with assms show ?thesis by (simp add: replaceShorter.simps)
next
  case (Some oldEntry)
  show ?thesis
  proof (cases "endPos - pos > entryLen oldEntry")
    case True
    with Some assms have "replaceShorter (AList.delete pos q) data start endPos
        (pos + entryLen oldEntry) True (fire (DoneCb oldEntry) fired) = WalkDone q' d e False c f"
      by (simp add: replaceShorter.simps [of q])
    then have False by (auto dest: replaceShorter_True)
    then show ?thesis ..
  next
    case False
    with Some assms show ?thesis by (simp add: replaceShorter.simps [of q])
  qed
qed

subsection \<open>The stages of push\<close>

lemma pushInto_stages:
  assumes "pushInto p s data offset doneCb startGap startsInGap endGap endsInGap
             = Returned (err, s', fired)"
    and "err \<noteq> Some errDuplicateStreamData"
  obtains q1 data1 endPos1 rep wasCut1 fired1 data2 start wasCut2 cells1 adjusted
    cells2 q2 fired2 data3 endPos wasCut
  where "replaceShorter (queue s) data offset (offset + int (length data)) offset False []
           = WalkDone q1 data1 endPos1 rep wasCut1 fired1"
    and "alignStart data1 offset wasCut1 (gaps s ! startGap) startsInGap rep
           = Some (data2, start, wasCut2)"
    and "updateStartGap startGap (gaps s ! startGap) start endPos1 rep (map Some (gaps s))
           = (cells1, adjusted)"
    and "consumeBetween (gaps s) startGap endGap cells1 q1 fired1 = Some (cells2, q2, fired2)"
    and "alignEnd data2 start endPos1 wasCut2 (End (gaps s ! endGap)) endsInGap
           = Some (data3, endPos, wasCut)"
    and "storeFrame p s q2
           (updateEndGap startGap endGap endPos (End (gaps s ! endGap))
              (End (gaps s ! startGap)) adjusted cells2)
           data3 start wasCut doneCb fired2 = Returned (err, s', fired)"
  using assms
  by (auto simp: pushInto_def placeFrame_def Let_def
      split: walkResult.splits option.splits prod.splits)

lemma push_stages:
  assumes "push p s data offset doneCb = Returned (err, s', fired)"
    and "err \<noteq> Some errDuplicateStreamData"
  obtains startGap startsInGap k endGap endsInGap
  where "data \<noteq> []"
    and "findStartGap (gaps s) offset = Some (startGap, startsInGap)"
    and "findEndGap (drop startGap (gaps s)) (offset + int (length data)) = Some (k, endsInGap)"
    and "endGapOf startGap k = Some endGap"
    and "pushInto p s data offset doneCb startGap startsInGap endGap endsInGap
           = Returned (err, s', fired)"
  using assms
  by (auto simp: push_def Let_def split: list.splits option.splits prod.splits if_splits)

lemma push_duplicate_unchanged:
  assumes "push p s data offset doneCb = Returned (Some errDuplicateStreamData, s', fired)"
  shows "s' = s \<and> fired = []"
proof -
  have store: "\<And>q g d st w f r. storeFrame p s q g d st w doneCb f = Returned r \<Longrightarrow>
      fst r \<noteq> Some errDuplicateStreamData"
    by (auto simp: storeFrame_def Let_def split: if_splits)
  have into: "\<And>i a j b. pushInto p s data offset doneCb i a j b
      = Returned (Some errDuplicateStreamData, s', fired) \<Longrightarrow> s' = s \<and> fired = []"
    by (auto simp: pushInto_def placeFrame_def Let_def dest!: store
        split: walkResult.splits option.splits prod.splits)
  from assms show ?thesis
    by (auto simp: push_def Let_def dest!: into
        split: list.splits option.splits prod.splits if_splits)
qed

subsection \<open>The cells of the gap list\<close>

lemma liveGaps_Nil [simp]: "liveGaps [] = []"
  by (simp add: liveGaps_def)

lemma liveGaps_Cons [simp]:
  "liveGaps (None # xs) = liveGaps xs" "liveGaps (Some g # xs) = g # liveGaps xs"
  by (simp_all add: liveGaps_def)

lemma liveGaps_map_Some [simp]: "liveGaps (map Some gs) = gs"
  by (induction gs) simp_all

lemma liveGaps_append [simp]: "liveGaps (xs @ ys) = liveGaps xs @ liveGaps ys"
proof (induction xs)
  case Nil
  then show ?case by simp
next
  case (Cons x xs)
  then show ?case by (cases x) simp_all
qed

lemma length_liveGaps: "length (liveGaps cells) \<le> length cells"
proof (induction cells)
  case Nil
  then show ?case by simp
next
  case (Cons x xs)
  then show ?case by (cases x) simp_all
qed

lemma length_removeGap [simp]: "length (removeGap k cells) = length cells"
  by (simp add: removeGap_def)

lemma length_removeGaps [simp]: "length (removeGaps k n cells) = length cells"
  by (induction n arbitrary: k cells) simp_all

lemma length_setStart [simp]: "length (setStart k v cells) = length cells"
  by (simp add: setStart_def)

lemma length_setEnd [simp]: "length (setEnd k v cells) = length cells"
  by (simp add: setEnd_def)

lemma length_updateStartGap:
  "updateStartGap i g start endPos rep cells = (cells', adjusted) \<Longrightarrow>
     length cells' = length cells"
  by (auto simp: updateStartGap_def split: if_splits)

lemma length_consumeBetween:
  "consumeBetween gs i j cells q fired = Some (cells', q', fired') \<Longrightarrow>
     length cells' = length cells"
  by (auto simp: consumeBetween_def split: if_splits prod.splits)

lemma length_insertAfter: "length (insertAfter g k cells) \<le> Suc (length cells)"
proof (cases "cells ! k = None")
  case True
  then show ?thesis using length_liveGaps [of cells] by (simp add: insertAfter_def)
next
  case False
  have "length (liveGaps (take (Suc k) cells)) + length (liveGaps (drop (Suc k) cells))
      = length (liveGaps cells)"
    by (metis append_take_drop_id length_append liveGaps_append)
  with False show ?thesis using length_liveGaps [of cells] by (simp add: insertAfter_def)
qed

lemma length_updateEndGap:
  "length (updateEndGap i j endPos endGapEnd startGapEnd adjusted cells) \<le> Suc (length cells)"
  using length_liveGaps [of cells] length_liveGaps [of "removeGap j cells"]
    length_liveGaps [of "setStart j endPos cells"] length_insertAfter [of _ i cells]
  by (auto simp: updateEndGap_def le_SucI)

lemma updateEndGap_grows:
  assumes "length cells < length (updateEndGap i j endPos endGapEnd startGapEnd adjusted cells)"
  shows "i = j \<and> adjusted \<and> endPos \<noteq> endGapEnd"
  using assms length_liveGaps [of cells] length_liveGaps [of "removeGap j cells"]
    length_liveGaps [of "setStart j endPos cells"]
  by (auto simp: updateEndGap_def split: if_splits)

lemma findStartGap_less:
  "findStartGap gs offset = Some (i, inGap) \<Longrightarrow> i < length gs"
  by (induction gs arbitrary: i) (auto split: if_splits)

subsection \<open>A push that fails\<close>

lemma push_too_many_gaps:
  assumes push: "push p s data offset doneCb = Returned (Some errTooManyGaps, s', fired)"
    and count: "length (gaps s) \<le> MaxStreamFrameSorterGaps p"
  shows "queue s' = queue s \<and> readPos s' = readPos s \<and> fired = []
    \<and> length (gaps s') = Suc (length (gaps s))
    \<and> length (gaps s') > MaxStreamFrameSorterGaps p"
proof -
  from push obtain startGap startsInGap k endGap endsInGap
    where into: "pushInto p s data offset doneCb startGap startsInGap endGap endsInGap
           = Returned (Some errTooManyGaps, s', fired)"
    by (rule push_stages) simp_all
  from into obtain q1 data1 endPos1 rep wasCut1 fired1 data2 start wasCut2 cells1 adjusted
    cells2 q2 fired2 data3 endPos wasCut
    where walk: "replaceShorter (queue s) data offset (offset + int (length data)) offset False []
           = WalkDone q1 data1 endPos1 rep wasCut1 fired1"
    and astart: "alignStart data1 offset wasCut1 (gaps s ! startGap) startsInGap rep
           = Some (data2, start, wasCut2)"
    and ustart: "updateStartGap startGap (gaps s ! startGap) start endPos1 rep (map Some (gaps s))
           = (cells1, adjusted)"
    and between: "consumeBetween (gaps s) startGap endGap cells1 q1 fired1
           = Some (cells2, q2, fired2)"
    and aend: "alignEnd data2 start endPos1 wasCut2 (End (gaps s ! endGap)) endsInGap
           = Some (data3, endPos, wasCut)"
    and store: "storeFrame p s q2
           (updateEndGap startGap endGap endPos (End (gaps s ! endGap))
              (End (gaps s ! startGap)) adjusted cells2)
           data3 start wasCut doneCb fired2 = Returned (Some errTooManyGaps, s', fired)"
    by (rule pushInto_stages) simp_all
  let ?gaps' = "updateEndGap startGap endGap endPos (End (gaps s ! endGap))
              (End (gaps s ! startGap)) adjusted cells2"
  have len2: "length cells2 = length (gaps s)"
    using length_updateStartGap [OF ustart] length_consumeBetween [OF between] by simp
  from store have many: "length ?gaps' > MaxStreamFrameSorterGaps p"
    and s': "s' = s\<lparr>queue := q2, gaps := ?gaps'\<rparr>"
    and fired: "fired = (if wasCut \<and> length data3 < MinStreamFrameBufferSize p
                         then fire doneCb fired2 else fired2)"
    by (auto simp: storeFrame_def Let_def split: if_splits)
  from many count len2 have grows: "length cells2 < length ?gaps'" by simp
  then have eq: "startGap = endGap" and adj: adjusted and ne: "endPos \<noteq> End (gaps s ! endGap)"
    using updateEndGap_grows by blast+
  from grows length_updateEndGap [of startGap endGap endPos "End (gaps s ! endGap)"
      "End (gaps s ! startGap)" adjusted cells2] len2
  have len: "length ?gaps' = Suc (length (gaps s))" by simp
  from ustart adj have norep: "\<not> rep" and after: "\<not> start \<le> Start (gaps s ! startGap)"
    by (auto simp: updateStartGap_def split: if_splits)
  from walk norep have w: "q1 = queue s" "fired1 = []" "\<not> wasCut1"
    using replaceShorter_not_replaced [of "queue s" data offset "offset + int (length data)"
        offset "[]" q1 data1 endPos1 wasCut1 fired1]
    by simp_all
  from astart after have nocut2: "wasCut2 = wasCut1"
    by (auto simp: alignStart_def split: if_splits)
  from aend ne have nocut: "wasCut = wasCut2"
    by (auto simp: alignEnd_def split: if_splits)
  from between eq have b: "q2 = q1" "fired2 = fired1"
    by (simp_all add: consumeBetween_def)
  from s' fired len w nocut2 nocut b many show ?thesis by simp
qed

section \<open>The frame sorter: scenarios and single pushes\<close>

text \<open>
  C9: on a fresh sorter, \<open>push(0, "AB")\<close> and \<open>push(5, "FG")\<close> leave the gaps
  \<open>[2, 5)\<close> and \<open>[7, MaxByteCount)\<close>; \<open>push(3, "D")\<close> then lowers the end of the gap
  \<open>[2, 5)\<close> to 3 and inserts the gap \<open>[4, 5)\<close> after it, and \<open>Pop\<close> returns
  \<open>(0, "AB")\<close> and then nothing (the nil payload at offset 2).
\<close>

theorem gap_split_scenario:
  "runSorter quicGo (newFrameSorter quicGo) [CallPush ''AB'' 0 cb1, CallPush ''FG'' 5 cb2]
     = ([PushReturned None [], PushReturned None []],
        \<lparr>queue = [(0, \<lparr>Data = ''AB'', DoneCb = cb1\<rparr>), (5, \<lparr>Data = ''FG'', DoneCb = cb2\<rparr>)],
         readPos = 0,
         gaps = [\<lparr>Start = 2, End = 5\<rparr>, \<lparr>Start = 7, End = MaxByteCount quicGo\<rparr>]\<rparr>)
   \<and> runSorter quicGo
        \<lparr>queue = [(0, \<lparr>Data = ''AB'', DoneCb = cb1\<rparr>), (5, \<lparr>Data = ''FG'', DoneCb = cb2\<rparr>)],
         readPos = 0,
         gaps = [\<lparr>Start = 2, End = 5\<rparr>, \<lparr>Start = 7, End = MaxByteCount quicGo\<rparr>]\<rparr>
        [CallPush ''D'' 3 cb3, CallPop, CallPop]
     = ([PushReturned None [], PopReturned 0 (Some ''AB'') cb1, PopReturned 2 None None],
        \<lparr>queue = [(5, \<lparr>Data = ''FG'', DoneCb = cb2\<rparr>), (3, \<lparr>Data = ''D'', DoneCb = cb3\<rparr>)],
         readPos = 2,
         gaps = [\<lparr>Start = 2, End = 3\<rparr>, \<lparr>Start = 4, End = 5\<rparr>,
                 \<lparr>Start = 7, End = MaxByteCount quicGo\<rparr>]\<rparr>)"
  by (simp add: sorter_eval)

text \<open>
  C1, as stated, fails for an entry exactly as long as the rest of the new frame: once an
  entry has been replaced, the loop deletes it like a shorter one. With \<open>"A"\<close> at 5 and
  \<open>"BC"\<close> at 6 queued, \<open>push(5, "ABC")\<close> replaces both.
\<close>

theorem replaceShorter_equal_length_counterexample:
  "map_of [(6, \<lparr>Data = ''BC'', DoneCb = Some 2\<rparr>)] 6 = Some \<lparr>Data = ''BC'', DoneCb = Some 2\<rparr>
   \<and> entryLen \<lparr>Data = ''BC'', DoneCb = Some 2\<rparr> = 8 - 6
   \<and> replaceShorter [(6, \<lparr>Data = ''BC'', DoneCb = Some 2\<rparr>)] ''ABC'' 5 8 6 True [1]
       = WalkDone [] ''ABC'' 8 True False [1, 2]
   \<and> runSorter quicGo (newFrameSorter quicGo)
        [CallPush ''A'' 5 (Some 1), CallPush ''BC'' 6 (Some 2), CallPush ''ABC'' 5 (Some 3)]
       = ([PushReturned None [], PushReturned None [], PushReturned None [1, 2]],
          \<lparr>queue = [(5, \<lparr>Data = ''ABC'', DoneCb = Some 3\<rparr>)], readPos = 0,
           gaps = [\<lparr>Start = 0, End = 5\<rparr>, \<lparr>Start = 8, End = MaxByteCount quicGo\<rparr>]\<rparr>)"
  by (simp add: sorter_eval)

text \<open>
  C1, amended: at a collision after at least one replacement, an entry strictly longer
  than the rest of the new frame (\<open>end - pos\<close>) makes \<open>push\<close> cut the frame to end at
  \<open>pos\<close> and stop the loop, with the queue as it is; an entry exactly as long as the rest
  is deleted, its callback is called, and the loop goes on behind it.
\<close>

theorem replaceShorter_collision_after_replacement:
  assumes "map_of q pos = Some oldEntry"
  shows "(endPos - pos < entryLen oldEntry \<and> start \<le> pos \<and> pos \<le> start + int (length data) \<longrightarrow>
            replaceShorter q data start endPos pos True fired
              = WalkDone q (take (nat (pos - start)) data) pos True True fired)
       \<and> (endPos - pos = entryLen oldEntry \<longrightarrow>
            replaceShorter q data start endPos pos True fired
              = replaceShorter (AList.delete pos q) data start endPos (pos + entryLen oldEntry)
                  True (fire (DoneCb oldEntry) fired))"
  using assms by (simp add: replaceShorter.simps [of q] sliceTo_def)

theorem replaceShorter_collision_after_replacement_witness:
  "map_of [(6, \<lparr>Data = ''BC'', DoneCb = Some 2\<rparr>)] 6 = Some \<lparr>Data = ''BC'', DoneCb = Some 2\<rparr>
   \<and> replaceShorter [(6, \<lparr>Data = ''BC'', DoneCb = Some 2\<rparr>)] ''AB'' 5 7 6 True [1]
       = WalkDone [(6, \<lparr>Data = ''BC'', DoneCb = Some 2\<rparr>)] ''A'' 6 True True [1]
   \<and> replaceShorter [(6, \<lparr>Data = ''BC'', DoneCb = Some 2\<rparr>)] ''ABC'' 5 8 6 True [1]
       = replaceShorter [] ''ABC'' 5 8 8 True [1, 2]"
proof -
  have entry: "map_of [(6, \<lparr>Data = ''BC'', DoneCb = Some 2\<rparr>)] (6 :: int)
      = Some \<lparr>Data = ''BC'', DoneCb = Some 2\<rparr>" by simp
  from replaceShorter_collision_after_replacement [OF entry, of 7 5 "''AB''" "[1]"]
    replaceShorter_collision_after_replacement [OF entry, of 8 5 "''ABC''" "[1]"] entry
  show ?thesis by (simp add: entryLen_def fire_def)
qed

text \<open>
  C2, as stated, fails: the check of the number of gaps comes after the gap list has been
  updated, and the list is not restored. With \<open>MaxStreamFrameSorterGaps\<close> at 1, a first
  frame at offset 5 splits the only gap and fails, leaving two gaps.
\<close>

theorem Push_too_many_gaps_counterexample:
  "Push (quicGo\<lparr>MaxStreamFrameSorterGaps := 1\<rparr>)
     (newFrameSorter (quicGo\<lparr>MaxStreamFrameSorterGaps := 1\<rparr>)) ''A'' 5 (Some 1)
     = Returned (Some errTooManyGaps,
         \<lparr>queue = [], readPos = 0,
          gaps = [\<lparr>Start = 0, End = 5\<rparr>, \<lparr>Start = 6, End = MaxByteCount quicGo\<rparr>]\<rparr>, [])
   \<and> gaps (newFrameSorter (quicGo\<lparr>MaxStreamFrameSorterGaps := 1\<rparr>))
       = [\<lparr>Start = 0, End = MaxByteCount quicGo\<rparr>]"
  by (simp add: sorter_eval)

text \<open>
  C2, amended: a push that fails with too many gaps, on a sorter that held at most
  \<open>MaxStreamFrameSorterGaps\<close> gaps, leaves the queue and \<open>readPos\<close> as they were and
  calls no callback; the gap list is not the one before the push: it holds one gap more,
  which is more than \<open>MaxStreamFrameSorterGaps\<close>.
\<close>

theorem Push_too_many_gaps_state:
  assumes "Push p s data offset doneCb = Returned (Some errTooManyGaps, s', fired)"
    and "length (gaps s) \<le> MaxStreamFrameSorterGaps p"
  shows "queue s' = queue s \<and> readPos s' = readPos s \<and> fired = []
    \<and> length (gaps s') = Suc (length (gaps s)) \<and> gaps s' \<noteq> gaps s
    \<and> length (gaps s') > MaxStreamFrameSorterGaps p"
proof -
  from assms(1) have "push p s data offset doneCb = Returned (Some errTooManyGaps, s', fired)"
    by (auto simp: Push_def split: outcome.splits if_splits)
  from push_too_many_gaps [OF this assms(2)] assms(2) show ?thesis by auto
qed

theorem Push_too_many_gaps_state_witness:
  "Push (quicGo\<lparr>MaxStreamFrameSorterGaps := 2\<rparr>)
     \<lparr>queue = [(5, \<lparr>Data = ''A'', DoneCb = Some 1\<rparr>)], readPos = 0,
      gaps = [\<lparr>Start = 0, End = 5\<rparr>, \<lparr>Start = 6, End = MaxByteCount quicGo\<rparr>]\<rparr>
     ''C'' 8 (Some 2)
     = Returned (Some errTooManyGaps,
         \<lparr>queue = [(5, \<lparr>Data = ''A'', DoneCb = Some 1\<rparr>)], readPos = 0,
          gaps = [\<lparr>Start = 0, End = 5\<rparr>, \<lparr>Start = 6, End = 8\<rparr>,
                  \<lparr>Start = 9, End = MaxByteCount quicGo\<rparr>]\<rparr>, [])
   \<and> length (gaps \<lparr>queue = [(5, \<lparr>Data = ''A'', DoneCb = Some 1\<rparr>)], readPos = 0,
      gaps = [\<lparr>Start = 0, End = 5\<rparr>, \<lparr>Start = 6, End = MaxByteCount quicGo\<rparr>]\<rparr>)
       \<le> MaxStreamFrameSorterGaps (quicGo\<lparr>MaxStreamFrameSorterGaps := 2\<rparr>)"
proof -
  have run: "Push (quicGo\<lparr>MaxStreamFrameSorterGaps := 2\<rparr>)
     \<lparr>queue = [(5, \<lparr>Data = ''A'', DoneCb = Some 1\<rparr>)], readPos = 0,
      gaps = [\<lparr>Start = 0, End = 5\<rparr>, \<lparr>Start = 6, End = MaxByteCount quicGo\<rparr>]\<rparr>
     ''C'' 8 (Some 2)
     = Returned (Some errTooManyGaps,
         \<lparr>queue = [(5, \<lparr>Data = ''A'', DoneCb = Some 1\<rparr>)], readPos = 0,
          gaps = [\<lparr>Start = 0, End = 5\<rparr>, \<lparr>Start = 6, End = 8\<rparr>,
                  \<lparr>Start = 9, End = MaxByteCount quicGo\<rparr>]\<rparr>, [])"
    by (simp add: sorter_eval)
  from Push_too_many_gaps_state [OF run] run show ?thesis by simp
qed

section \<open>The frame sorter: pushes on a well-formed sorter\<close>

subsection \<open>cutGaps\<close>

lemma cutGaps_Nil [simp]: "cutGaps a b [] = []"
  by (simp add: cutGaps_def)

lemma cutGaps_Cons: "cutGaps a b (g # gs) = cutGap a b g @ cutGaps a b gs"
  by (simp add: cutGaps_def)

lemma cutGaps_append [simp]: "cutGaps a b (xs @ ys) = cutGaps a b xs @ cutGaps a b ys"
  by (simp add: cutGaps_def)

lemma cutGap_piece:
  assumes "y \<in> set (cutGap a b g)" "Start g < End g"
  shows "Start g \<le> Start y \<and> End y \<le> End g \<and> Start y < End y \<and> (b \<le> Start y \<or> End y \<le> a)
    \<and> (End y = End g \<and> (b \<le> Start g \<or> End g \<le> a \<or> b < End g) \<or> End y = a \<and> Start g < a \<and> a < End g)"
  using assms by (auto simp: cutGap_def split: if_splits)

lemma cutGaps_piece:
  assumes "y \<in> set (cutGaps a b gs)"
  obtains g where "g \<in> set gs" "y \<in> set (cutGap a b g)"
  using assms by (auto simp: cutGaps_def)

lemma cutGaps_clear_same:
  "clearOfGaps gs a b \<Longrightarrow> cutGaps a b gs = gs"
  by (induction gs) (auto simp: cutGaps_Cons cutGap_def clearOfGaps_def)

lemma cutGaps_ordered:
  assumes "gapsOrdered gs" "a < b"
  shows "gapsOrdered (cutGaps a b gs)"
  using assms
proof (induction gs)
  case Nil
  then show ?case by (simp add: gapsOrdered_def)
next
  case (Cons g gs)
  then have g: "Start g < End g" and rest: "gapsOrdered gs"
    and lt: "\<forall>h \<in> set gs. End g < Start h" and pos: "\<forall>h \<in> set gs. Start h < End h"
    by (auto simp: gapsOrdered_def)
  from Cons.IH [OF rest Cons.prems(2)] have ih: "gapsOrdered (cutGaps a b gs)" .
  have later: "\<forall>x \<in> set (cutGap a b g). \<forall>y \<in> set (cutGaps a b gs). End x < Start y"
  proof (intro ballI)
    fix x y assume x: "x \<in> set (cutGap a b g)" and y: "y \<in> set (cutGaps a b gs)"
    from y obtain h where h: "h \<in> set gs" "y \<in> set (cutGap a b h)"
      by (rule cutGaps_piece)
    from cutGap_piece [OF x g] have "End x \<le> End g" by simp
    moreover from h pos cutGap_piece [of y a b h] have "Start h \<le> Start y" by simp
    moreover from lt h have "End g < Start h" by simp
    ultimately show "End x < Start y" by simp
  qed
  have own: "gapsOrdered (cutGap a b g)"
    using g Cons.prems(2) by (auto simp: cutGap_def gapsOrdered_def)
  from own ih later show ?case
    by (auto simp: cutGaps_Cons gapsOrdered_def sorted_wrt_append)
qed

lemma cutGaps_clear_new:
  assumes "\<forall>g \<in> set gs. Start g < End g"
  shows "clearOfGaps (cutGaps a b gs) a b"
  unfolding clearOfGaps_def
proof
  fix y assume "y \<in> set (cutGaps a b gs)"
  then obtain g where "g \<in> set gs" "y \<in> set (cutGap a b g)" by (rule cutGaps_piece)
  with assms cutGap_piece [of y a b g] show "b \<le> Start y \<or> End y \<le> a" by simp
qed

lemma cutGaps_clear_old:
  assumes "\<forall>g \<in> set gs. Start g < End g" "clearOfGaps gs c d"
  shows "clearOfGaps (cutGaps a b gs) c d"
  unfolding clearOfGaps_def
proof
  fix y assume "y \<in> set (cutGaps a b gs)"
  then obtain g where g: "g \<in> set gs" "y \<in> set (cutGap a b g)" by (rule cutGaps_piece)
  with assms(1) cutGap_piece [of y a b g] have "Start g \<le> Start y" "End y \<le> End g" by simp_all
  moreover from assms(2) g have "d \<le> Start g \<or> End g \<le> c" by (simp add: clearOfGaps_def)
  ultimately show "d \<le> Start y \<or> End y \<le> c" by auto
qed

lemma cutGaps_last:
  assumes "gs \<noteq> []" "b < End (last gs)" "a < b" "\<forall>g \<in> set gs. Start g < End g"
  shows "cutGaps a b gs \<noteq> [] \<and> End (last (cutGaps a b gs)) = End (last gs)"
proof -
  from assms(1) obtain xs g where gs: "gs = xs @ [g]" by (metis rev_exhaust)
  with assms have "b < End g" "Start g < End g" by simp_all
  with assms(3) have "cutGap a b g \<noteq> [] \<and> End (last (cutGap a b g)) = End g"
    by (auto simp: cutGap_def)
  with gs show ?thesis by (simp add: cutGaps_Cons)
qed

lemma cutGaps_hd:
  assumes "gapsOrdered gs" "gs \<noteq> []" "cutGaps a b gs \<noteq> []"
  shows "Start (hd gs) \<le> Start (hd (cutGaps a b gs))"
proof -
  from assms(3) have "hd (cutGaps a b gs) \<in> set (cutGaps a b gs)" by simp
  then obtain g where g: "g \<in> set gs" "hd (cutGaps a b gs) \<in> set (cutGap a b g)"
    by (rule cutGaps_piece)
  with assms(1) cutGap_piece [of "hd (cutGaps a b gs)" a b g]
  have "Start g \<le> Start (hd (cutGaps a b gs))" by (simp add: gapsOrdered_def)
  moreover have "Start (hd gs) \<le> Start g"
  proof (cases gs)
    case Nil
    with assms(2) show ?thesis by simp
  next
    case (Cons x xs)
    with assms(1) have "Start x < End x" "\<forall>h \<in> set xs. End x < Start h"
      by (simp_all add: gapsOrdered_def)
    with g(1) Cons show ?thesis by auto
  qed
  ultimately show ?thesis by simp
qed

subsection \<open>The queue\<close>

lemma set_delete_subset: "set (AList.delete k q) \<subseteq> set q"
  by (auto simp: AList.delete_eq)

lemma entriesClear_delete: "entriesClear gs q \<Longrightarrow> entriesClear gs (AList.delete k q)"
  using set_delete_subset [of k q] by (auto simp: entriesClear_def)

lemma entriesClear_lookup:
  assumes "entriesClear gs q" "map_of q k = Some e"
  shows "Data e \<noteq> [] \<and> clearOfGaps gs k (k + entryLen e) \<and> 0 < entryLen e"
  using assms by (auto simp: entriesClear_def entryLen_def dest!: map_of_SomeD)

lemma heldCallbacks_Nil [simp]: "heldCallbacks [] = {#}"
  by (simp add: heldCallbacks_def)

lemma heldCallbacks_Cons:
  "heldCallbacks ((k, e) # q) = mset (fire (DoneCb e) []) + heldCallbacks q"
  by (cases "DoneCb e") (simp_all add: heldCallbacks_def fire_def)

lemma mset_fire: "mset (fire cb f) = mset f + mset (fire cb [])"
  by (cases cb) (simp_all add: fire_def)

lemma heldCallbacks_delete:
  assumes "distinct (map fst q)" "map_of q k = Some e"
  shows "heldCallbacks (AList.delete k q) + mset (fire (DoneCb e) []) = heldCallbacks q"
  using assms
proof (induction q)
  case Nil
  then show ?case by simp
next
  case (Cons x q)
  obtain k' e' where x: "x = (k', e')" by (cases x)
  show ?case
  proof (cases "k' = k")
    case True
    with Cons.prems x have "e' = e" "k \<notin> fst ` set q" by auto
    with True x show ?thesis by (simp add: heldCallbacks_Cons)
  next
    case False
    with Cons x show ?thesis by (simp add: heldCallbacks_Cons)
  qed
qed

lemma heldCallbacks_update:
  assumes "map_of q k = None"
  shows "heldCallbacks (AList.update k e q) = heldCallbacks q + mset (fire (DoneCb e) [])"
  using assms
proof (induction q)
  case Nil
  then show ?case by (simp add: heldCallbacks_Cons)
next
  case (Cons x q)
  obtain k' e' where x: "x = (k', e')" by (cases x)
  with Cons show ?case by (auto simp: heldCallbacks_Cons split: if_splits)
qed

subsection \<open>deleteConsecutive\<close>

lemma deleteConsecutive_None:
  "map_of q pos = None \<Longrightarrow> deleteConsecutive q pos f = (q, f)"
  by (simp add: deleteConsecutive.simps)

lemma deleteConsecutive_Some:
  "map_of q pos = Some e \<Longrightarrow>
     deleteConsecutive q pos f
       = deleteConsecutive (AList.delete pos q) (pos + entryLen e) (fire (DoneCb e) f)"
  by (simp add: deleteConsecutive.simps [of q])

lemma deleteConsecutive_keeps:
  assumes "distinct (map fst q)"
  shows "distinct (map fst (fst (deleteConsecutive q pos f)))
    \<and> set (fst (deleteConsecutive q pos f)) \<subseteq> set q
    \<and> heldCallbacks (fst (deleteConsecutive q pos f)) + mset (snd (deleteConsecutive q pos f))
        = heldCallbacks q + mset f"
  using assms
proof (induction q pos f rule: deleteConsecutive.induct)
  case (1 q pos f)
  show ?case
  proof (cases "map_of q pos")
    case None
    with 1 show ?thesis by (simp add: deleteConsecutive_None)
  next
    case (Some e)
    let ?r = "deleteConsecutive (AList.delete pos q) (pos + entryLen e) (fire (DoneCb e) f)"
    from "1.prems" have d: "distinct (map fst (AList.delete pos q))" by (rule distinct_delete)
    from "1.IH" [OF Some d]
    have ih: "distinct (map fst (fst ?r))" "set (fst ?r) \<subseteq> set (AList.delete pos q)"
      "heldCallbacks (fst ?r) + mset (snd ?r)
         = heldCallbacks (AList.delete pos q) + mset (fire (DoneCb e) f)"
      by simp_all
    from ih(3) heldCallbacks_delete [OF "1.prems" Some] mset_fire [of "DoneCb e" f]
    have "heldCallbacks (fst ?r) + mset (snd ?r) = heldCallbacks q + mset f"
      by (simp add: ac_simps)
    with ih(1,2) set_delete_subset [of pos q] Some show ?thesis
      by (auto simp: deleteConsecutive_Some)
  qed
qed

lemma deleteConsecutive_run:
  assumes "entriesClear gs q" "\<forall>x \<in> set gs. Start x < End x"
    and "lo \<le> pos" "\<forall>x \<in> set gs. End x \<le> lo \<or> pos \<le> Start x"
  shows "map_of (fst (deleteConsecutive q pos f)) k = map_of q k
    \<or> map_of (fst (deleteConsecutive q pos f)) k = None \<and> inRun gs lo k"
  using assms
proof (induction q pos f rule: deleteConsecutive.induct)
  case (1 q pos f)
  show ?case
  proof (cases "map_of q pos")
    case None
    then show ?thesis by (simp add: deleteConsecutive_None)
  next
    case (Some e)
    from entriesClear_lookup [OF "1.prems"(1) Some]
    have len: "0 < entryLen e" and clear: "clearOfGaps gs pos (pos + entryLen e)" by simp_all
    have nxt: "\<forall>x \<in> set gs. End x \<le> lo \<or> pos + entryLen e \<le> Start x"
    proof
      fix x assume x: "x \<in> set gs"
      with clear have "pos + entryLen e \<le> Start x \<or> End x \<le> pos" by (simp add: clearOfGaps_def)
      with x "1.prems"(2,4) show "End x \<le> lo \<or> pos + entryLen e \<le> Start x" by force
    qed
    with len have here: "inRun gs lo pos" using "1.prems"(3) by (force simp: inRun_def)
    from "1.IH" [OF Some entriesClear_delete [OF "1.prems"(1)] "1.prems"(2) _ nxt]
      "1.prems"(3) len
    have "map_of (fst (deleteConsecutive q pos f)) k = map_of (AList.delete pos q) k
      \<or> map_of (fst (deleteConsecutive q pos f)) k = None \<and> inRun gs lo k"
      by (simp add: deleteConsecutive_Some [OF Some])
    with here show ?thesis by (cases "k = pos") (auto simp: delete_conv')
  qed
qed

subsection \<open>The first loop, once an entry has been replaced\<close>

lemma replaceShorter_run:
  assumes "entriesClear gs q" "distinct (map fst q)" "\<forall>x \<in> set gs. Start x < End x"
    and "lo \<le> pos" "\<forall>x \<in> set gs. End x \<le> lo \<or> pos \<le> Start x"
    and "a \<le> pos" "pos \<le> b" "b = a + int (length data)"
  shows "replacedRun gs lo q f data a b pos (replaceShorter q data a b pos True f)"
  using assms
proof (induction q data a b pos "True" f rule: replaceShorter.induct)
  case (1 q data a b pos f)
  show ?case
  proof (cases "map_of q pos")
    case None
    with "1.prems" show ?thesis
      by (simp add: replaceShorter.simps [of q] replacedRun_def)
  next
    case (Some e)
    from entriesClear_lookup [OF "1.prems"(1) Some]
    have len: "0 < entryLen e" and clear: "clearOfGaps gs pos (pos + entryLen e)" by simp_all
    have nxt: "\<forall>x \<in> set gs. End x \<le> lo \<or> pos + entryLen e \<le> Start x"
    proof
      fix x assume x: "x \<in> set gs"
      with clear have "pos + entryLen e \<le> Start x \<or> End x \<le> pos" by (simp add: clearOfGaps_def)
      with x "1.prems"(3,5) show "End x \<le> lo \<or> pos + entryLen e \<le> Start x" by force
    qed
    show ?thesis
    proof (cases "b - pos > entryLen e \<or> b - pos = entryLen e")
      case True
      let ?q = "AList.delete pos q" and ?f = "fire (DoneCb e) f"
      let ?r = "replaceShorter ?q data a b (pos + entryLen e) True ?f"
      from True Some have unfold: "replaceShorter q data a b pos True f = ?r"
        by (simp add: replaceShorter.simps [of q])
      have "replacedRun gs lo ?q ?f data a b (pos + entryLen e) ?r"
        using True Some "1.prems" len nxt
        by (intro "1.hyps" [OF Some] entriesClear_delete distinct_delete) auto
      then obtain q1 d1 e1 c1 f1 where r: "?r = WalkDone q1 d1 e1 True c1 f1"
        and ih: "distinct (map fst q1)" "set q1 \<subseteq> set ?q"
          "heldCallbacks q1 + mset f1 = heldCallbacks ?q + mset ?f"
          "\<forall>k. map_of q1 k = map_of ?q k \<or> map_of q1 k = None \<and> inRun gs lo k \<and> k < e1"
          "pos + entryLen e \<le> e1" "e1 \<le> b" "d1 = take (nat (e1 - a)) data"
          "if c1 then (\<forall>x \<in> set gs. End x \<le> lo \<or> b < Start x)
                   \<and> (case map_of q1 e1 of None \<Rightarrow> False | Some e \<Rightarrow> b - e1 < entryLen e)
           else e1 = b"
        by (auto simp: replacedRun_def split: walkResult.splits)
      have held: "heldCallbacks q1 + mset f1 = heldCallbacks q + mset f"
        using ih(3) heldCallbacks_delete [OF "1.prems"(2) Some] mset_fire [of "DoneCb e" f]
        by (simp add: ac_simps)
      have here: "inRun gs lo pos"
        using nxt len "1.prems"(4) by (force simp: inRun_def)
      have keys: "map_of q1 k = map_of q k \<or> map_of q1 k = None \<and> inRun gs lo k \<and> k < e1" for k
      proof (cases "k = pos")
        case True
        with ih(4) [rule_format, of pos] here ih(5) len show ?thesis
          by (auto simp: delete_conv')
      next
        case False
        with ih(4) [rule_format, of k] show ?thesis by (simp add: delete_conv')
      qed
      from ih(1,2,5,6,7,8) held keys len set_delete_subset [of pos q]
      show ?thesis unfolding unfold r by (auto simp: replacedRun_def)
    next
      case False
      with Some have less: "b - pos < entryLen e" by simp
      from "1.prems"(6,7,8) have slice: "sliceTo data (pos - a) = Some (take (nat (pos - a)) data)"
        by (simp add: sliceTo_def)
      from False Some slice
      have unfold: "replaceShorter q data a b pos True f
          = WalkDone q (take (nat (pos - a)) data) pos True True f"
        by (simp add: replaceShorter.simps [of q])
      have "\<forall>x \<in> set gs. End x \<le> lo \<or> b < Start x"
        using nxt less by force
      with Some less "1.prems"(2,7) show ?thesis
        unfolding unfold by (simp add: replacedRun_def)
    qed
  qed
qed

text \<open>The loop as \<open>push\<close> starts it.\<close>

lemma replaceShorter_start:
  assumes "entriesClear gs q" "distinct (map fst q)" "\<forall>x \<in> set gs. Start x < End x"
    and "b = a + int (length data)"
  shows "(case map_of q a of
            None \<Rightarrow> replaceShorter q data a b a False [] = WalkDone q data b False False []
          | Some e \<Rightarrow>
              clearOfGaps gs a (a + entryLen e) \<and> 0 < entryLen e
              \<and> (if b - a > entryLen e
                 then replacedRun gs a (AList.delete a q) (fire (DoneCb e) []) data a b
                        (a + entryLen e) (replaceShorter q data a b a False [])
                 else replaceShorter q data a b a False [] = WalkDuplicate))"
proof (cases "map_of q a")
  case None
  then show ?thesis by (simp add: replaceShorter.simps [of q])
next
  case (Some e)
  from entriesClear_lookup [OF assms(1) Some]
  have len: "0 < entryLen e" and clear: "clearOfGaps gs a (a + entryLen e)" by simp_all
  show ?thesis
  proof (cases "b - a > entryLen e")
    case True
    with Some have unfold: "replaceShorter q data a b a False []
        = replaceShorter (AList.delete a q) data a b (a + entryLen e) True (fire (DoneCb e) [])"
      by (simp add: replaceShorter.simps [of q])
    have "replacedRun gs a (AList.delete a q) (fire (DoneCb e) []) data a b (a + entryLen e)
        (replaceShorter (AList.delete a q) data a b (a + entryLen e) True (fire (DoneCb e) []))"
      using assms True len clear
      by (intro replaceShorter_run entriesClear_delete distinct_delete)
        (auto simp: clearOfGaps_def)
    with Some True len clear show ?thesis by (simp add: unfold)
  next
    case False
    with Some len clear show ?thesis by (simp add: replaceShorter.simps [of q])
  qed
qed

subsection \<open>The two searches\<close>

lemma gapsOrdered_Cons:
  "gapsOrdered (g # gs) \<longleftrightarrow>
     Start g < End g \<and> (\<forall>h \<in> set gs. End g < Start h) \<and> gapsOrdered gs"
  by (auto simp: gapsOrdered_def)

lemma gapsOrdered_append:
  "gapsOrdered (xs @ ys) \<longleftrightarrow>
     gapsOrdered xs \<and> gapsOrdered ys \<and> (\<forall>x \<in> set xs. \<forall>y \<in> set ys. End x < Start y)"
  by (auto simp: gapsOrdered_def sorted_wrt_append)

lemma findStartGap_decomp:
  assumes "gapsOrdered gs" "gs \<noteq> []" "a \<le> End (last gs)"
  obtains pre g post where "gs = pre @ g # post"
    and "findStartGap gs a = Some (length pre, Start g \<le> a)"
    and "\<forall>x \<in> set pre. End x < a" and "a \<le> End g"
proof -
  have "\<exists>pre g post. gs = pre @ g # post
      \<and> findStartGap gs a = Some (length pre, Start g \<le> a)
      \<and> (\<forall>x \<in> set pre. End x < a) \<and> a \<le> End g"
    using assms
  proof (induction gs)
    case Nil
    then show ?case by simp
  next
    case (Cons g gs)
    from Cons.prems(1) have g: "Start g < End g" and rest: "gapsOrdered gs"
      by (simp_all add: gapsOrdered_Cons)
    show ?case
    proof (cases "a \<le> End g")
      case True
      with g have "findStartGap (g # gs) a = Some (0, Start g \<le> a)" by auto
      with True show ?thesis by (intro exI [of _ "[]"] exI [of _ g] exI [of _ gs]) simp
    next
      case False
      with Cons.prems(3) have ne: "gs \<noteq> []" and last: "a \<le> End (last gs)"
        by (auto split: if_splits)
      from Cons.IH [OF rest ne last] obtain pre h post where ih: "gs = pre @ h # post"
        "findStartGap gs a = Some (length pre, Start h \<le> a)" "\<forall>x \<in> set pre. End x < a"
        "a \<le> End h" by blast
      from False g ih(2) have "findStartGap (g # gs) a = Some (length (g # pre), Start h \<le> a)"
        by simp
      with ih False show ?thesis
        by (intro exI [of _ "g # pre"] exI [of _ h] exI [of _ post]) simp
    qed
  qed
  with that show thesis by blast
qed

lemma findEndGap_decomp:
  assumes "l \<noteq> []" "b < End (last l)" "\<forall>x \<in> set l. Start x < End x"
  obtains mid h post where "l = mid @ h # post"
    and "\<forall>x \<in> set mid. End x \<le> b \<and> Start x \<le> b" and "b < End h"
    and "findEndGap l b =
           Some (if Start h \<le> b then (Some (length mid), True)
                 else (if mid = [] then None else Some (length mid - 1), False))"
proof -
  have "\<exists>mid h post. l = mid @ h # post
      \<and> (\<forall>x \<in> set mid. End x \<le> b \<and> Start x \<le> b) \<and> b < End h
      \<and> findEndGap l b =
           Some (if Start h \<le> b then (Some (length mid), True)
                 else (if mid = [] then None else Some (length mid - 1), False))"
    using assms
  proof (induction l)
    case Nil
    then show ?case by simp
  next
    case (Cons g l)
    show ?case
    proof (cases "b < End g")
      case True
      then have "findEndGap (g # l) b =
          Some (if Start g \<le> b then (Some 0, True) else (None, False))" by auto
      with True show ?thesis by (intro exI [of _ "[]"] exI [of _ g] exI [of _ l]) simp
    next
      case False
      with Cons.prems have ne: "l \<noteq> []" and last: "b < End (last l)"
        and pos: "\<forall>x \<in> set l. Start x < End x" and g: "Start g \<le> b"
        by (auto split: if_splits)
      from Cons.IH [OF ne last pos] obtain mid h post where ih: "l = mid @ h # post"
        "\<forall>x \<in> set mid. End x \<le> b \<and> Start x \<le> b" "b < End h"
        "findEndGap l b =
           Some (if Start h \<le> b then (Some (length mid), True)
                 else (if mid = [] then None else Some (length mid - 1), False))" by blast
      have "findEndGap (g # l) b =
           Some (if Start h \<le> b then (Some (length (g # mid)), True)
                 else (if g # mid = [] then None else Some (length (g # mid) - 1), False))"
        using False g ih(4) by (cases mid) auto
      with ih False g show ?thesis
        by (intro exI [of _ "g # mid"] exI [of _ h] exI [of _ post]) simp
    qed
  qed
  with that show thesis by blast
qed

subsection \<open>The loop over the gaps between\<close>

lemma consumeGaps_decomp:
  assumes "\<forall>x \<in> set xs. End x < v" "\<not> End y < v"
  shows "consumeGaps (xs @ y # ys) v q f = Some (length xs, deleteBehind xs q f)"
  using assms
proof (induction xs arbitrary: q f)
  case Nil
  then show ?case by simp
next
  case (Cons x xs)
  then show ?case by (simp split: prod.splits)
qed

lemma gapsOrdered_pair:
  assumes "gapsOrdered gs" "x \<in> set gs" "y \<in> set gs"
  shows "End y \<le> End x \<or> End x < Start y"
  using assms
proof (induction gs)
  case Nil
  then show ?case by simp
next
  case (Cons g gs)
  from Cons.prems(1) have g: "Start g < End g" "\<forall>h \<in> set gs. End g < Start h"
    and rest: "gapsOrdered gs" by (simp_all add: gapsOrdered_Cons)
  from rest have pos: "\<forall>h \<in> set gs. Start h < End h" by (simp add: gapsOrdered_def)
  consider "x = g" "y = g" | "x = g" "y \<in> set gs" | "x \<in> set gs" "y = g"
    | "x \<in> set gs" "y \<in> set gs"
    using Cons.prems(2,3) by auto
  then show ?case
  proof cases
    case 1
    then show ?thesis by simp
  next
    case 2
    with g show ?thesis by simp
  next
    case 3
    with g pos have "End y < Start x" "Start x < End x" by simp_all
    then show ?thesis by simp
  next
    case 4
    with Cons.IH [OF rest] show ?thesis by simp
  qed
qed

lemma deleteBehind_keeps:
  assumes "distinct (map fst q)"
  shows "distinct (map fst (fst (deleteBehind xs q f)))
    \<and> set (fst (deleteBehind xs q f)) \<subseteq> set q
    \<and> heldCallbacks (fst (deleteBehind xs q f)) + mset (snd (deleteBehind xs q f))
        = heldCallbacks q + mset f"
  using assms
proof (induction xs arbitrary: q f)
  case Nil
  then show ?case by simp
next
  case (Cons x xs)
  obtain q' f' where dc: "deleteConsecutive q (End x) f = (q', f')" by force
  from deleteConsecutive_keeps [OF Cons.prems, of "End x" f] dc
  have k: "distinct (map fst q')" "set q' \<subseteq> set q"
    "heldCallbacks q' + mset f' = heldCallbacks q + mset f" by simp_all
  from Cons.IH [OF k(1), of f'] k(2,3) dc show ?case by auto
qed

lemma deleteBehind_run:
  assumes "entriesClear gs q" "gapsOrdered gs" "set xs \<subseteq> set gs" "distinct (map fst q)"
  shows "map_of (fst (deleteBehind xs q f)) k = map_of q k
    \<or> map_of (fst (deleteBehind xs q f)) k = None \<and> (\<exists>x \<in> set xs. inRun gs (End x) k)"
  using assms
proof (induction xs arbitrary: q f)
  case Nil
  then show ?case by simp
next
  case (Cons x xs)
  obtain q' f' where dc: "deleteConsecutive q (End x) f = (q', f')" by force
  from Cons.prems have x: "x \<in> set gs" and pos: "\<forall>y \<in> set gs. Start y < End y"
    by (auto simp: gapsOrdered_def)
  have P: "\<forall>y \<in> set gs. End y \<le> End x \<or> End x \<le> Start y"
    using gapsOrdered_pair [OF Cons.prems(2) x] by force
  from deleteConsecutive_run [OF Cons.prems(1) pos order_refl P, of f k] dc
  have first: "map_of q' k = map_of q k \<or> map_of q' k = None \<and> inRun gs (End x) k" by simp
  from deleteConsecutive_keeps [OF Cons.prems(4), of "End x" f] dc
  have keep: "distinct (map fst q')" "set q' \<subseteq> set q" by simp_all
  from keep(2) Cons.prems(1) have clear: "entriesClear gs q'"
    by (auto simp: entriesClear_def)
  from Cons.IH [OF clear Cons.prems(2) _ keep(1), of f'] Cons.prems(3)
  have "map_of (fst (deleteBehind xs q' f')) k = map_of q' k
    \<or> map_of (fst (deleteBehind xs q' f')) k = None \<and> (\<exists>x \<in> set xs. inRun gs (End x) k)"
    by simp
  with first dc show ?case by auto
qed

subsection \<open>Cells of a list that is cut at the gaps found\<close>

lemma interval_updates [simp]:
  "g\<lparr>Start := v\<rparr> = \<lparr>Start = v, End = End g\<rparr>"
  "g\<lparr>End := v\<rparr> = \<lparr>Start = Start g, End = v\<rparr>"
  "\<lparr>Start = Start g, End = End g\<rparr> = g"
  by (cases g; simp)+

lemma removeGap_at: "k = length xs \<Longrightarrow> removeGap k (xs @ c # ys) = xs @ None # ys"
  by (simp add: removeGap_def)

lemma setStart_at:
  "k = length xs \<Longrightarrow> setStart k v (xs @ Some g # ys) = xs @ Some \<lparr>Start = v, End = End g\<rparr> # ys"
  by (simp add: setStart_def)

lemma setEnd_at:
  "k = length xs \<Longrightarrow> setEnd k v (xs @ Some g # ys) = xs @ Some \<lparr>Start = Start g, End = v\<rparr> # ys"
  by (simp add: setEnd_def)

lemma removeGaps_at:
  "k = length xs \<Longrightarrow> n = length ms \<Longrightarrow>
     removeGaps k n (xs @ ms @ ys) = xs @ replicate n None @ ys"
proof (induction ms arbitrary: xs k n)
  case Nil
  then show ?case by simp
next
  case (Cons m ms)
  have "removeGaps k n (xs @ (m # ms) @ ys)
      = removeGaps (Suc k) (length ms) ((xs @ [None]) @ ms @ ys)"
    using Cons.prems by (simp add: removeGap_def)
  also have "\<dots> = (xs @ [None]) @ replicate (length ms) None @ ys"
    using Cons.prems by (intro Cons.IH) simp_all
  finally show ?case using Cons.prems by simp
qed

lemma liveGaps_replicate_None [simp]: "liveGaps (replicate n None) = []"
  by (induction n) simp_all

lemma insertAfter_at:
  "k = length xs \<Longrightarrow>
     insertAfter v k (xs @ Some g # ys) = liveGaps xs @ g # v # liveGaps ys"
  by (simp add: insertAfter_def)

lemma cutGaps_before:
  "\<forall>x \<in> set pre. End x \<le> a \<Longrightarrow> cutGaps a b pre = pre"
  by (rule cutGaps_clear_same) (simp add: clearOfGaps_def)

lemma cutGaps_after:
  "\<forall>x \<in> set post. b \<le> Start x \<Longrightarrow> cutGaps a b post = post"
  by (rule cutGaps_clear_same) (simp add: clearOfGaps_def)

lemma cutGaps_inside:
  "\<forall>x \<in> set mid. a \<le> Start x \<and> End x \<le> b \<and> Start x < End x \<Longrightarrow> cutGaps a b mid = []"
  by (induction mid) (auto simp: cutGaps_Cons cutGap_def)

text \<open>The frame ends inside the gap it starts in or before.\<close>

lemma placeFrame_within:
  assumes gs: "gaps s = pre @ g # post" and ord: "gapsOrdered (gaps s)"
    and pre: "\<forall>x \<in> set pre. End x < a" and ag: "a \<le> End g"
    and b: "b = a + int (length data)" "Start g < b" "b < End g" "a < b"
    and walk: "\<not> rep \<and> a \<noteq> End g \<or> rep \<and> (a < Start g \<or> a = End g)"
    and start: "start = (if \<not> Start g \<le> a \<and> \<not> rep then Start g else a)"
  shows "placeFrame p s a cb (length pre) (Start g \<le> a) (length pre) True q1 data b rep False f1
      = storeFrame p s q1 (cutGaps start b (gaps s)) (drop (nat (start - a)) data) start
          (\<not> Start g \<le> a \<and> \<not> rep) cb f1"
proof -
  from ord gs have g: "Start g < End g" and post: "\<forall>x \<in> set post. End g < Start x"
    and before: "\<forall>x \<in> set pre. End x < Start g"
    by (auto simp: gapsOrdered_append gapsOrdered_Cons)
  have "\<forall>x \<in> set pre. End x \<le> start" using pre before start by auto
  moreover have "\<forall>x \<in> set post. b \<le> Start x" using post b by auto
  ultimately have cut: "cutGaps start b (gaps s) = pre @ cutGap start b g @ post"
    by (simp add: gs cutGaps_Cons cutGaps_before cutGaps_after)
  show ?thesis
    unfolding cut using b g ag walk start
    by (auto simp: placeFrame_def gs alignStart_def updateStartGap_def consumeBetween_def
        alignEnd_def updateEndGap_def cutGap_def sliceFrom_def removeGap_at setStart_at
        setEnd_at insertAfter_at Let_def)
qed

lemma nth_found_later [simp]:
  "(pre @ g # mid @ h # post) ! Suc (length pre + length mid) = h"
  by (simp add: nth_append nth_Cons')

lemma gapsOrdered_pos: "gapsOrdered gs \<Longrightarrow> x \<in> set gs \<Longrightarrow> Start x < End x"
  by (simp add: gapsOrdered_def)

lemma gapsOrdered_two:
  assumes "gapsOrdered (pre @ g # mid @ h # post)"
  shows "Start g < End g" "Start h < End h" "\<forall>x \<in> set pre. End x < Start g"
    "\<forall>x \<in> set mid. End g < Start x \<and> Start x < End x \<and> End x < Start h"
    "End g < Start h" "\<forall>x \<in> set post. End h < Start x"
  using assms by (auto simp: gapsOrdered_append gapsOrdered_Cons dest: gapsOrdered_pos)

text \<open>The frame ends inside a later gap.\<close>

lemma placeFrame_into_gap:
  assumes gs: "gaps s = pre @ g # mid @ h # post" and ord: "gapsOrdered (gaps s)"
    and pre: "\<forall>x \<in> set pre. End x < a" and ag: "a \<le> End g"
    and b: "b = a + int (length data)" "a < b"
    and ends: "\<forall>x \<in> set (g # mid). End x \<le> b" "Start h \<le> b" "b < End h"
    and walk: "\<not> rep \<and> a \<noteq> End g \<or> rep \<and> (a < Start g \<or> a = End g)"
    and start: "start = (if \<not> Start g \<le> a \<and> \<not> rep then Start g else a)"
  shows "placeFrame p s a cb (length pre) (Start g \<le> a) (Suc (length pre + length mid)) True
           q1 data b rep False f1
      = storeFrame p s (fst (deleteBehind (g # mid) q1 f1)) (cutGaps start b (gaps s))
          (drop (nat (start - a)) data) start (\<not> Start g \<le> a \<and> \<not> rep) cb
          (snd (deleteBehind (g # mid) q1 f1))"
proof -
  from ord have "gapsOrdered (pre @ g # mid @ h # post)" by (simp add: gs)
  note o = gapsOrdered_two [OF this]
  note g = o(1) and h = o(2) and before = o(3) and mid = o(4) and gh = o(5) and post = o(6)
  have s: "start \<le> End g" "Start g \<le> start \<or> start = a" using start ag g by auto
  have "\<forall>x \<in> set pre. End x \<le> start" using pre before start by auto
  moreover have "\<forall>x \<in> set post. b \<le> Start x" using post ends by auto
  moreover have "\<forall>x \<in> set mid. start \<le> Start x \<and> End x \<le> b \<and> Start x < End x"
    using mid ends s by auto
  ultimately have cut: "cutGaps start b (gaps s) = pre @ cutGap start b g @ cutGap start b h @ post"
    by (simp add: gs cutGaps_Cons cutGaps_before cutGaps_after cutGaps_inside)
  have consume: "consumeGaps (mid @ h # post) (Start h) q f
      = Some (length mid, deleteBehind mid q f)" for q f
    using mid h by (intro consumeGaps_decomp) auto
  have cells: "removeGaps (Suc (length pre)) (length mid)
      (map Some pre @ c # map Some mid @ Some h # map Some post)
      = map Some pre @ c # replicate (length mid) None @ Some h # map Some post" for c
    using removeGaps_at [of "Suc (length pre)" "map Some pre @ [c]" "length mid" "map Some mid"
        "Some h # map Some post"] by simp
  have at: "setStart (Suc (length pre + length mid)) v
      (map Some pre @ c # replicate (length mid) None @ Some h # map Some post)
      = map Some pre @ c # replicate (length mid) None @ Some \<lparr>Start = v, End = End h\<rparr>
          # map Some post" for c v
    using setStart_at [of "Suc (length pre + length mid)"
        "map Some pre @ c # replicate (length mid) None" v h "map Some post"] by simp
  show ?thesis
    unfolding cut using b g h gh ag walk start ends
    by (auto simp: placeFrame_def gs alignStart_def updateStartGap_def consumeBetween_def
        alignEnd_def updateEndGap_def cutGap_def sliceFrom_def removeGap_at setStart_at
        setEnd_at consume cells at Let_def split: prod.splits)
qed

text \<open>The frame ends in filled data behind a later gap, which it covers.\<close>

lemma placeFrame_over_gaps:
  assumes gs: "gaps s = pre @ g # mid @ h # post" and ord: "gapsOrdered (gaps s)"
    and pre: "\<forall>x \<in> set pre. End x < a" and ag: "a \<le> End g"
    and b: "b = a + int (length data)" "a < b"
    and ends: "End h \<le> b" "\<forall>x \<in> set post. b < Start x"
    and walk: "\<not> rep \<and> a \<noteq> End g \<or> rep \<and> (a < Start g \<or> a = End g)"
    and start: "start = (if \<not> Start g \<le> a \<and> \<not> rep then Start g else a)"
  shows "placeFrame p s a cb (length pre) (Start g \<le> a) (Suc (length pre + length mid)) False
           q1 data b rep False f1
      = storeFrame p s (fst (deleteBehind (g # mid) q1 f1)) (cutGaps start (End h) (gaps s))
          (take (nat (End h - start)) (drop (nat (start - a)) data)) start
          ((\<not> Start g \<le> a \<and> \<not> rep) \<or> End h < b) cb
          (snd (deleteBehind (g # mid) q1 f1))"
proof -
  from ord have "gapsOrdered (pre @ g # mid @ h # post)" by (simp add: gs)
  note o = gapsOrdered_two [OF this]
  note g = o(1) and h = o(2) and before = o(3) and mid = o(4) and gh = o(5) and post = o(6)
  have s: "start \<le> End g" "Start g \<le> start \<or> start = a" using start ag g by auto
  have "\<forall>x \<in> set pre. End x \<le> start" using pre before start by auto
  moreover have "\<forall>x \<in> set post. End h \<le> Start x" using post by auto
  moreover have "\<forall>x \<in> set mid. start \<le> Start x \<and> End x \<le> End h \<and> Start x < End x"
    using mid h s by auto
  ultimately have cut: "cutGaps start (End h) (gaps s)
      = pre @ cutGap start (End h) g @ cutGap start (End h) h @ post"
    by (simp add: gs cutGaps_Cons cutGaps_before cutGaps_after cutGaps_inside)
  have consume: "consumeGaps (mid @ h # post) (Start h) q f
      = Some (length mid, deleteBehind mid q f)" for q f
    using mid h by (intro consumeGaps_decomp) auto
  have cells: "removeGaps (Suc (length pre)) (length mid)
      (map Some pre @ c # map Some mid @ Some h # map Some post)
      = map Some pre @ c # replicate (length mid) None @ Some h # map Some post" for c
    using removeGaps_at [of "Suc (length pre)" "map Some pre @ [c]" "length mid" "map Some mid"
        "Some h # map Some post"] by simp
  have at: "removeGap (Suc (length pre + length mid))
      (map Some pre @ c # replicate (length mid) None @ Some h # map Some post)
      = map Some pre @ c # replicate (length mid) None @ None # map Some post" for c
    using removeGap_at [of "Suc (length pre + length mid)"
        "map Some pre @ c # replicate (length mid) None" "Some h" "map Some post"] by simp
  have len: "int (length data) = b - a" using b by simp
  show ?thesis
    unfolding cut using b g h gh ag walk start ends len
    by (auto simp: placeFrame_def gs alignStart_def updateStartGap_def consumeBetween_def
        alignEnd_def updateEndGap_def cutGap_def sliceFrom_def sliceTo_def removeGap_at
        setStart_at setEnd_at consume cells at Let_def split: prod.splits)
qed

text \<open>The frame ends in filled data behind the gap it starts in or before.\<close>

lemma placeFrame_over_gap:
  assumes gs: "gaps s = pre @ g # post" and ord: "gapsOrdered (gaps s)"
    and pre: "\<forall>x \<in> set pre. End x < a" and ag: "a \<le> End g"
    and b: "b = a + int (length data)" "a < b"
    and ends: "End g \<le> b" "\<forall>x \<in> set post. b < Start x"
    and walk: "\<not> rep \<and> a \<noteq> End g \<or> rep \<and> a < Start g"
    and start: "start = (if \<not> Start g \<le> a \<and> \<not> rep then Start g else a)"
  shows "placeFrame p s a cb (length pre) (Start g \<le> a) (length pre) False
           q1 data b rep False f1
      = storeFrame p s q1 (cutGaps start (End g) (gaps s))
          (take (nat (End g - start)) (drop (nat (start - a)) data)) start
          ((\<not> Start g \<le> a \<and> \<not> rep) \<or> End g < b) cb f1"
proof -
  from ord gs have g: "Start g < End g" and post: "\<forall>x \<in> set post. End g < Start x"
    and before: "\<forall>x \<in> set pre. End x < Start g"
    by (auto simp: gapsOrdered_append gapsOrdered_Cons)
  have "\<forall>x \<in> set pre. End x \<le> start" using pre before start by auto
  moreover have "\<forall>x \<in> set post. End g \<le> Start x" using post by auto
  ultimately have cut: "cutGaps start (End g) (gaps s) = pre @ cutGap start (End g) g @ post"
    by (simp add: gs cutGaps_Cons cutGaps_before cutGaps_after)
  have len: "int (length data) = b - a" using b by simp
  show ?thesis
    unfolding cut using b g ag walk start ends len
    by (auto simp: placeFrame_def gs alignStart_def updateStartGap_def consumeBetween_def
        alignEnd_def updateEndGap_def cutGap_def sliceFrom_def sliceTo_def removeGap_at
        setStart_at setEnd_at insertAfter_at Let_def)
qed

text \<open>The frame starts at the end of a gap and ends before the next: no gap changes.\<close>

lemma placeFrame_behind_gap:
  assumes gs: "gaps s = pre @ g # post" and ord: "gapsOrdered (gaps s)"
    and pre: "\<forall>x \<in> set pre. End x < a" and ag: "a = End g"
    and e1: "a < e1" "e1 \<le> b" and ends: "\<forall>x \<in> set post. b < Start x"
  shows "placeFrame p s a cb (length pre) (Start g \<le> a) (length pre) False
           q1 data1 e1 True wasCut1 f1
      = storeFrame p s q1 (cutGaps a e1 (gaps s)) data1 a wasCut1 cb f1"
proof -
  from ord gs have g: "Start g < End g"
    by (auto simp: gapsOrdered_append gapsOrdered_Cons)
  have "clearOfGaps (gaps s) a e1"
    using pre ag e1 ends by (auto simp: gs clearOfGaps_def)
  then have cut: "cutGaps a e1 (gaps s) = gaps s" by (rule cutGaps_clear_same)
  show ?thesis
    unfolding cut using g ag e1
    by (auto simp: placeFrame_def gs alignStart_def updateStartGap_def consumeBetween_def
        alignEnd_def updateEndGap_def Let_def)
qed

subsection \<open>The first loop on a well-formed sorter\<close>

lemma replaceShorter_cases:
  assumes clear: "entriesClear gs q" and dist: "distinct (map fst q)"
    and ord: "gapsOrdered gs" and b: "b = a + int (length data)"
    and g: "g \<in> set gs" "a \<le> End g" "a = End g \<longrightarrow> map_of q a \<noteq> None"
  obtains (dup) "replaceShorter q data a b a False [] = WalkDuplicate" "clearOfGaps gs a b"
  | (none) "replaceShorter q data a b a False [] = WalkDone q data b False False []"
      "map_of q a = None" "a \<noteq> End g"
  | (rep) q1 e1 c1 f1 where
      "replaceShorter q data a b a False []
         = WalkDone q1 (take (nat (e1 - a)) data) e1 True c1 f1"
      "a < Start g \<or> a = End g" "a < e1" "e1 \<le> b"
      "distinct (map fst q1)" "set q1 \<subseteq> set q"
      "heldCallbacks q1 + mset f1 = heldCallbacks q"
      "\<forall>k. map_of q1 k = map_of q k \<or> map_of q1 k = None \<and> inRun gs a k \<and> k < e1"
      "map_of q1 a = None"
      "c1 \<longrightarrow> (\<forall>x \<in> set gs. End x \<le> a \<or> b < Start x)" "\<not> c1 \<longrightarrow> e1 = b"
proof -
  from ord have pos: "\<forall>x \<in> set gs. Start x < End x" by (simp add: gapsOrdered_def)
  note start = replaceShorter_start [OF clear dist pos b]
  show thesis
  proof (cases "map_of q a")
    case None
    with start have "replaceShorter q data a b a False [] = WalkDone q data b False False []"
      by simp
    with None g(3) show ?thesis by (intro none) auto
  next
    case (Some e)
    with start have e: "clearOfGaps gs a (a + entryLen e)" "0 < entryLen e"
      and run: "if b - a > entryLen e
        then replacedRun gs a (AList.delete a q) (fire (DoneCb e) []) data a b
               (a + entryLen e) (replaceShorter q data a b a False [])
        else replaceShorter q data a b a False [] = WalkDuplicate"
      by simp_all
    show ?thesis
    proof (cases "b - a > entryLen e")
      case False
      with e(1) have "clearOfGaps gs a b" by (auto simp: clearOfGaps_def)
      with False run show ?thesis by (intro dup) simp_all
    next
      case True
      with run obtain q1 d1 e1 c1 f1
        where r: "replaceShorter q data a b a False [] = WalkDone q1 d1 e1 True c1 f1"
        and f: "distinct (map fst q1)" "set q1 \<subseteq> set (AList.delete a q)"
          "heldCallbacks q1 + mset f1 = heldCallbacks (AList.delete a q) + mset (fire (DoneCb e) [])"
          "\<forall>k. map_of q1 k = map_of (AList.delete a q) k
             \<or> map_of q1 k = None \<and> inRun gs a k \<and> k < e1"
          "a + entryLen e \<le> e1" "e1 \<le> b" "d1 = take (nat (e1 - a)) data"
          "if c1 then (\<forall>x \<in> set gs. End x \<le> a \<or> b < Start x)
                   \<and> (case map_of q1 e1 of None \<Rightarrow> False | Some e \<Rightarrow> b - e1 < entryLen e)
           else e1 = b"
        by (auto simp: replacedRun_def split: walkResult.splits)
      from e(1) g(1) have "a + entryLen e \<le> Start g \<or> End g \<le> a"
        by (simp add: clearOfGaps_def)
      with e(2) g(2) have side: "a < Start g \<or> a = End g" by auto
      have here: "inRun gs a a"
        using e by (force simp: inRun_def clearOfGaps_def)
      have keys: "map_of q1 k = map_of q k \<or> map_of q1 k = None \<and> inRun gs a k \<and> k < e1" for k
      proof (cases "k = a")
        case True
        with f(4) [rule_format, of a] here f(5) e(2) show ?thesis by (auto simp: delete_conv')
      next
        case False
        with f(4) [rule_format, of k] show ?thesis by (simp add: delete_conv')
      qed
      have gone: "map_of q1 a = None"
        using f(4) [rule_format, of a] by (auto simp: delete_conv')
      have held: "heldCallbacks q1 + mset f1 = heldCallbacks q"
        using f(3) heldCallbacks_delete [OF dist Some] by simp
      show ?thesis
      proof (rule rep)
        show "replaceShorter q data a b a False []
            = WalkDone q1 (take (nat (e1 - a)) data) e1 True c1 f1"
          using r f(7) by simp
        show "a < Start g \<or> a = End g" by (rule side)
        show "a < e1" using f(5) e(2) by simp
        show "e1 \<le> b" by (rule f(6))
        show "distinct (map fst q1)" by (rule f(1))
        show "set q1 \<subseteq> set q" using f(2) set_delete_subset [of a q] by blast
        show "heldCallbacks q1 + mset f1 = heldCallbacks q" by (rule held)
        show "\<forall>k. map_of q1 k = map_of q k \<or> map_of q1 k = None \<and> inRun gs a k \<and> k < e1"
          using keys by blast
        show "map_of q1 a = None" by (rule gone)
        show "c1 \<longrightarrow> (\<forall>x \<in> set gs. End x \<le> a \<or> b < Start x)" using f(8) by simp
        show "\<not> c1 \<longrightarrow> e1 = b" using f(8) by simp
      qed
    qed
  qed
qed

subsection \<open>The ways a frame is placed\<close>

lemma framePlacedI:
  assumes "r = storeFrame p s q2 (cutGaps start stop (gaps s))
              (take (nat (stop - start)) (drop (nat (start - a)) data)) start wasCut cb f2"
    and "a \<le> start" "start < stop" "stop \<le> a + int (length data)"
    and "start = a \<or> clearOfGaps (gaps s) a start"
    and "stop = a + int (length data) \<or> clearOfGaps (gaps s) stop (a + int (length data))"
    and "distinct (map fst q2)" "set q2 \<subseteq> set (queue s)"
    and "heldCallbacks q2 + mset f2 = heldCallbacks (queue s)"
    and "\<And>k. map_of q2 k = map_of (queue s) k \<or> map_of q2 k = None \<and> start \<le> k \<and> k < stop"
    and "map_of q2 start = None"
  shows "framePlaced p s data a cb r"
  unfolding framePlaced_def using assms by blast

lemma framePlacedE:
  assumes "framePlaced p s data a cb r"
  obtains start stop q2 f2 wasCut where
    "r = storeFrame p s q2 (cutGaps start stop (gaps s))
              (take (nat (stop - start)) (drop (nat (start - a)) data)) start wasCut cb f2"
    and "a \<le> start" "start < stop" "stop \<le> a + int (length data)"
    and "start = a \<or> clearOfGaps (gaps s) a start"
    and "stop = a + int (length data) \<or> clearOfGaps (gaps s) stop (a + int (length data))"
    and "distinct (map fst q2)" "set q2 \<subseteq> set (queue s)"
      "heldCallbacks q2 + mset f2 = heldCallbacks (queue s)"
    and "\<forall>k. map_of q2 k = map_of (queue s) k
        \<or> map_of q2 k = None \<and> start \<le> k \<and> k < stop"
    and "map_of q2 start = None"
proof -
  from assms obtain start stop q2 f2 wasCut where
    "r = storeFrame p s q2 (cutGaps start stop (gaps s))
              (take (nat (stop - start)) (drop (nat (start - a)) data)) start wasCut cb f2
        \<and> a \<le> start \<and> start < stop \<and> stop \<le> a + int (length data)
        \<and> (start = a \<or> clearOfGaps (gaps s) a start)
        \<and> (stop = a + int (length data) \<or> clearOfGaps (gaps s) stop (a + int (length data)))
        \<and> distinct (map fst q2) \<and> set q2 \<subseteq> set (queue s)
        \<and> heldCallbacks q2 + mset f2 = heldCallbacks (queue s)
        \<and> (\<forall>k. map_of q2 k = map_of (queue s) k \<or> map_of q2 k = None \<and> start \<le> k \<and> k < stop)
        \<and> map_of q2 start = None"
    unfolding framePlaced_def by (elim exE)
  then show thesis by (elim conjE) (rule that; assumption)
qed

lemma no_entry_at_gap_start:
  assumes "entriesClear gs q" "g \<in> set gs" "Start g < End g"
  shows "map_of q (Start g) = None"
proof (cases "map_of q (Start g)")
  case None
  then show ?thesis .
next
  case (Some e)
  from entriesClear_lookup [OF assms(1) Some] assms(2,3) show ?thesis
    by (auto simp: clearOfGaps_def)
qed

lemma submap_None:
  assumes "\<And>k. map_of q2 k = map_of q k \<or> map_of q2 k = None \<and> P k" "map_of q k = None"
  shows "map_of q2 k = None"
  using assms(1) [of k] assms(2) by auto

lemma placed_into_gap:
  assumes gs: "gaps s = pre @ g # mid @ h # post" and ord: "gapsOrdered (gaps s)"
    and clear: "entriesClear (gaps s) (queue s)"
    and pre: "\<forall>x \<in> set pre. End x < a" and ag: "a \<le> End g"
    and b: "b = a + int (length data)" "a < b"
    and ends: "\<forall>x \<in> set (g # mid). End x \<le> b" "Start h \<le> b" "b < End h"
    and walk: "walked (gaps s) (queue s) a b g q1 b rep f1"
  shows "framePlaced p s data a cb
     (placeFrame p s a cb (length pre) (Start g \<le> a) (Suc (length pre + length mid)) True
        q1 data b rep False f1)"
proof -
  define start where "start = (if \<not> Start g \<le> a \<and> \<not> rep then Start g else a)"
  from ord have "gapsOrdered (pre @ g # mid @ h # post)" by (simp add: gs)
  note o = gapsOrdered_two [OF this]
  note g = o(1) and h = o(2) and before = o(3) and mid = o(4) and gh = o(5) and post = o(6)
  from walk have w: "\<not> rep \<and> a \<noteq> End g \<or> rep \<and> (a < Start g \<or> a = End g)"
    and q1: "distinct (map fst q1)" "set q1 \<subseteq> set (queue s)"
      "heldCallbacks q1 + mset f1 = heldCallbacks (queue s)" "map_of q1 a = None"
    and keys1: "\<And>k. map_of q1 k = map_of (queue s) k
        \<or> map_of q1 k = None \<and> rep \<and> inRun (gaps s) a k \<and> k < b"
    by (auto simp: walked_def split: if_splits)
  let ?q2 = "fst (deleteBehind (g # mid) q1 f1)" and ?f2 = "snd (deleteBehind (g # mid) q1 f1)"
  have eq: "placeFrame p s a cb (length pre) (Start g \<le> a) (Suc (length pre + length mid)) True
           q1 data b rep False f1
      = storeFrame p s ?q2 (cutGaps start b (gaps s))
          (drop (nat (start - a)) data) start (\<not> Start g \<le> a \<and> \<not> rep) cb ?f2"
    using gs ord pre ag b ends w start_def by (rule placeFrame_into_gap)
  have s: "a \<le> start" "start \<le> End g" "start < b" using start_def ag g ends b by auto
  have clear1: "entriesClear (gaps s) q1" using clear q1(2) by (auto simp: entriesClear_def)
  note keep = deleteBehind_keeps [OF q1(1), of "g # mid" f1]
  have keys2: "map_of ?q2 k = map_of q1 k
      \<or> map_of ?q2 k = None \<and> (\<exists>x \<in> set (g # mid). inRun (gaps s) (End x) k)" for k
    using deleteBehind_run [OF clear1 ord _ q1(1), of "g # mid" f1 k] by (auto simp: gs)
  have behind: "start \<le> k \<and> k < b" if "x \<in> set (g # mid)" "inRun (gaps s) (End x) k" for x k
  proof -
    from that(1) mid have "End g \<le> End x" "End x < Start h" using gh by auto
    moreover from that(2) have "End x \<le> k" "End h \<le> End x \<or> k < Start h"
      by (auto simp: inRun_def gs)
    ultimately show ?thesis using s ends h by auto
  qed
  have walkkeys: "start \<le> k" if "rep" "inRun (gaps s) a k" for k
    using that start_def by (auto simp: inRun_def)
  have keys: "map_of ?q2 k = map_of (queue s) k \<or> map_of ?q2 k = None \<and> start \<le> k \<and> k < b" for k
    using keys1 [of k] keys2 [of k] behind walkkeys by (auto simp del: set_simps)
  have free: "map_of ?q2 start = None"
  proof (cases "start = a")
    case True
    with keys2 [of a] q1(4) show ?thesis by auto
  next
    case False
    then have "start = Start g" "\<not> rep" using start_def by (auto split: if_splits)
    moreover have "map_of (queue s) (Start g) = None"
      using clear _ g by (rule no_entry_at_gap_start) (simp add: gs)
    ultimately show ?thesis using keys [of start] by auto
  qed
  have margin: "start = a \<or> clearOfGaps (gaps s) a start"
    using start_def pre before mid gh post g h
    by (auto simp: clearOfGaps_def gs)
  show ?thesis
  proof (rule framePlacedI)
    show "placeFrame p s a cb (length pre) (Start g \<le> a) (Suc (length pre + length mid)) True
           q1 data b rep False f1
      = storeFrame p s ?q2 (cutGaps start b (gaps s))
          (take (nat (b - start)) (drop (nat (start - a)) data)) start
          (\<not> Start g \<le> a \<and> \<not> rep) cb ?f2"
      using eq b s by simp
    show "a \<le> start" "start < b" "b \<le> a + int (length data)" using s b by simp_all
    show "start = a \<or> clearOfGaps (gaps s) a start" by (rule margin)
    show "b = a + int (length data) \<or> clearOfGaps (gaps s) b (a + int (length data))"
      using b by simp
    show "distinct (map fst ?q2)" using keep by simp
    show "set ?q2 \<subseteq> set (queue s)" using keep q1(2) by blast
    show "heldCallbacks ?q2 + mset ?f2 = heldCallbacks (queue s)" using keep q1(3) by simp
    show "map_of ?q2 k = map_of (queue s) k \<or> map_of ?q2 k = None \<and> start \<le> k \<and> k < b" for k
      by (rule keys)
    show "map_of ?q2 start = None" by (rule free)
  qed
qed

lemma placed_over_gaps:
  assumes gs: "gaps s = pre @ g # mid @ h # post" and ord: "gapsOrdered (gaps s)"
    and clear: "entriesClear (gaps s) (queue s)"
    and pre: "\<forall>x \<in> set pre. End x < a" and ag: "a \<le> End g"
    and b: "b = a + int (length data)" "a < b"
    and ends: "End h \<le> b" "\<forall>x \<in> set post. b < Start x"
    and walk: "walked (gaps s) (queue s) a b g q1 b rep f1"
  shows "framePlaced p s data a cb
     (placeFrame p s a cb (length pre) (Start g \<le> a) (Suc (length pre + length mid)) False
        q1 data b rep False f1)"
proof -
  define start where "start = (if \<not> Start g \<le> a \<and> \<not> rep then Start g else a)"
  from ord have "gapsOrdered (pre @ g # mid @ h # post)" by (simp add: gs)
  note o = gapsOrdered_two [OF this]
  note g = o(1) and h = o(2) and before = o(3) and mid = o(4) and gh = o(5) and post = o(6)
  from walk have w: "\<not> rep \<and> a \<noteq> End g \<or> rep \<and> (a < Start g \<or> a = End g)"
    and q1: "distinct (map fst q1)" "set q1 \<subseteq> set (queue s)"
      "heldCallbacks q1 + mset f1 = heldCallbacks (queue s)" "map_of q1 a = None"
    and keys1: "\<And>k. map_of q1 k = map_of (queue s) k
        \<or> map_of q1 k = None \<and> rep \<and> inRun (gaps s) a k \<and> k < b"
    by (auto simp: walked_def split: if_splits)
  let ?q2 = "fst (deleteBehind (g # mid) q1 f1)" and ?f2 = "snd (deleteBehind (g # mid) q1 f1)"
  have eq: "placeFrame p s a cb (length pre) (Start g \<le> a) (Suc (length pre + length mid)) False
           q1 data b rep False f1
      = storeFrame p s ?q2 (cutGaps start (End h) (gaps s))
          (take (nat (End h - start)) (drop (nat (start - a)) data)) start
          ((\<not> Start g \<le> a \<and> \<not> rep) \<or> End h < b) cb ?f2"
    using gs ord pre ag b ends w start_def by (rule placeFrame_over_gaps)
  have s: "a \<le> start" "start \<le> End g" "start < End h" using start_def ag g gh h by auto
  have clear1: "entriesClear (gaps s) q1" using clear q1(2) by (auto simp: entriesClear_def)
  note keep = deleteBehind_keeps [OF q1(1), of "g # mid" f1]
  have keys2: "map_of ?q2 k = map_of q1 k
      \<or> map_of ?q2 k = None \<and> (\<exists>x \<in> set (g # mid). inRun (gaps s) (End x) k)" for k
    using deleteBehind_run [OF clear1 ord _ q1(1), of "g # mid" f1 k] by (auto simp: gs)
  have behind: "start \<le> k \<and> k < End h" if "x \<in> set (g # mid)" "inRun (gaps s) (End x) k" for x k
  proof -
    from that(1) mid have "End g \<le> End x" "End x < Start h" using gh by auto
    moreover from that(2) have "End x \<le> k" "End h \<le> End x \<or> k < Start h"
      by (auto simp: inRun_def gs)
    ultimately show ?thesis using s h by auto
  qed
  have walkkeys: "start \<le> k \<and> k < End h" if "rep" "inRun (gaps s) a k" for k
  proof -
    from that(2) have "a \<le> k" "End h \<le> a \<or> k < Start h" by (auto simp: inRun_def gs)
    with that(1) start_def ag gh h show ?thesis by auto
  qed
  have keys: "map_of ?q2 k = map_of (queue s) k
      \<or> map_of ?q2 k = None \<and> start \<le> k \<and> k < End h" for k
    using keys1 [of k] keys2 [of k] behind walkkeys by (auto simp del: set_simps)
  have free: "map_of ?q2 start = None"
  proof (cases "start = a")
    case True
    with keys2 [of a] q1(4) show ?thesis by auto
  next
    case False
    then have "start = Start g" "\<not> rep" using start_def by (auto split: if_splits)
    moreover have "map_of (queue s) (Start g) = None"
      using clear _ g by (rule no_entry_at_gap_start) (simp add: gs)
    ultimately show ?thesis using keys [of start] by auto
  qed
  have margin: "start = a \<or> clearOfGaps (gaps s) a start"
    using start_def pre before mid gh post g h
    by (auto simp: clearOfGaps_def gs)
  have tail: "End h = a + int (length data) \<or> clearOfGaps (gaps s) (End h) (a + int (length data))"
    using before mid gh ends g h b
    by (auto simp: clearOfGaps_def gs)
  show ?thesis
  proof (rule framePlacedI)
    show "placeFrame p s a cb (length pre) (Start g \<le> a) (Suc (length pre + length mid)) False
           q1 data b rep False f1
      = storeFrame p s ?q2 (cutGaps start (End h) (gaps s))
          (take (nat (End h - start)) (drop (nat (start - a)) data)) start
          ((\<not> Start g \<le> a \<and> \<not> rep) \<or> End h < b) cb ?f2"
      by (rule eq)
    show "a \<le> start" "start < End h" "End h \<le> a + int (length data)" using s b ends by simp_all
    show "start = a \<or> clearOfGaps (gaps s) a start" by (rule margin)
    show "End h = a + int (length data) \<or> clearOfGaps (gaps s) (End h) (a + int (length data))"
      by (rule tail)
    show "distinct (map fst ?q2)" using keep by simp
    show "set ?q2 \<subseteq> set (queue s)" using keep q1(2) by blast
    show "heldCallbacks ?q2 + mset ?f2 = heldCallbacks (queue s)" using keep q1(3) by simp
    show "map_of ?q2 k = map_of (queue s) k
        \<or> map_of ?q2 k = None \<and> start \<le> k \<and> k < End h" for k
      by (rule keys)
    show "map_of ?q2 start = None" by (rule free)
  qed
qed

lemma placed_within:
  assumes gs: "gaps s = pre @ g # post" and ord: "gapsOrdered (gaps s)"
    and clear: "entriesClear (gaps s) (queue s)"
    and pre: "\<forall>x \<in> set pre. End x < a" and ag: "a \<le> End g"
    and b: "b = a + int (length data)" "Start g < b" "b < End g" "a < b"
    and walk: "walked (gaps s) (queue s) a b g q1 b rep f1"
  shows "framePlaced p s data a cb
     (placeFrame p s a cb (length pre) (Start g \<le> a) (length pre) True q1 data b rep False f1)"
proof -
  define start where "start = (if \<not> Start g \<le> a \<and> \<not> rep then Start g else a)"
  from ord gs have g: "Start g < End g" and post: "\<forall>x \<in> set post. End g < Start x"
    and before: "\<forall>x \<in> set pre. End x < Start g"
    by (auto simp: gapsOrdered_append gapsOrdered_Cons)
  from walk have w: "\<not> rep \<and> a \<noteq> End g \<or> rep \<and> (a < Start g \<or> a = End g)"
    and q1: "distinct (map fst q1)" "set q1 \<subseteq> set (queue s)"
      "heldCallbacks q1 + mset f1 = heldCallbacks (queue s)" "map_of q1 a = None"
    and keys1: "\<And>k. map_of q1 k = map_of (queue s) k
        \<or> map_of q1 k = None \<and> rep \<and> inRun (gaps s) a k \<and> k < b"
    by (auto simp: walked_def split: if_splits)
  have eq: "placeFrame p s a cb (length pre) (Start g \<le> a) (length pre) True q1 data b rep False f1
      = storeFrame p s q1 (cutGaps start b (gaps s)) (drop (nat (start - a)) data) start
          (\<not> Start g \<le> a \<and> \<not> rep) cb f1"
    using gs ord pre ag b w start_def by (rule placeFrame_within)
  have s: "a \<le> start" "start < b" using start_def b by auto
  have keys: "map_of q1 k = map_of (queue s) k \<or> map_of q1 k = None \<and> start \<le> k \<and> k < b" for k
    using keys1 [of k] start_def by (auto simp: inRun_def)
  have free: "map_of q1 start = None"
  proof (cases "start = a")
    case True
    with q1(4) show ?thesis by simp
  next
    case False
    then have "start = Start g" "\<not> rep" using start_def by (auto split: if_splits)
    moreover have "map_of (queue s) (Start g) = None"
      using clear _ g by (rule no_entry_at_gap_start) (simp add: gs)
    ultimately show ?thesis using keys [of start] by auto
  qed
  have margin: "start = a \<or> clearOfGaps (gaps s) a start"
    using start_def pre before post g by (auto simp: clearOfGaps_def gs)
  show ?thesis
  proof (rule framePlacedI)
    show "placeFrame p s a cb (length pre) (Start g \<le> a) (length pre) True q1 data b rep False f1
      = storeFrame p s q1 (cutGaps start b (gaps s))
          (take (nat (b - start)) (drop (nat (start - a)) data)) start
          (\<not> Start g \<le> a \<and> \<not> rep) cb f1"
      using eq b s by simp
    show "a \<le> start" "start < b" "b \<le> a + int (length data)" using s b by simp_all
    show "start = a \<or> clearOfGaps (gaps s) a start" by (rule margin)
    show "b = a + int (length data) \<or> clearOfGaps (gaps s) b (a + int (length data))"
      using b by simp
    show "distinct (map fst q1)" "set q1 \<subseteq> set (queue s)"
      "heldCallbacks q1 + mset f1 = heldCallbacks (queue s)" by (rule q1)+
    show "map_of q1 k = map_of (queue s) k \<or> map_of q1 k = None \<and> start \<le> k \<and> k < b" for k
      by (rule keys)
    show "map_of q1 start = None" by (rule free)
  qed
qed

lemma placed_over_gap:
  assumes gs: "gaps s = pre @ g # post" and ord: "gapsOrdered (gaps s)"
    and clear: "entriesClear (gaps s) (queue s)"
    and pre: "\<forall>x \<in> set pre. End x < a" and ag: "a \<le> End g" "a \<noteq> End g"
    and b: "b = a + int (length data)" "a < b"
    and ends: "End g \<le> b" "\<forall>x \<in> set post. b < Start x"
    and walk: "walked (gaps s) (queue s) a b g q1 b rep f1"
  shows "framePlaced p s data a cb
     (placeFrame p s a cb (length pre) (Start g \<le> a) (length pre) False q1 data b rep False f1)"
proof -
  define start where "start = (if \<not> Start g \<le> a \<and> \<not> rep then Start g else a)"
  from ord gs have g: "Start g < End g" and post: "\<forall>x \<in> set post. End g < Start x"
    and before: "\<forall>x \<in> set pre. End x < Start g"
    by (auto simp: gapsOrdered_append gapsOrdered_Cons)
  from walk ag(2) have w: "\<not> rep \<and> a \<noteq> End g \<or> rep \<and> a < Start g"
    and q1: "distinct (map fst q1)" "set q1 \<subseteq> set (queue s)"
      "heldCallbacks q1 + mset f1 = heldCallbacks (queue s)" "map_of q1 a = None"
    and keys1: "\<And>k. map_of q1 k = map_of (queue s) k
        \<or> map_of q1 k = None \<and> rep \<and> inRun (gaps s) a k \<and> k < b"
    by (auto simp: walked_def split: if_splits)
  have eq: "placeFrame p s a cb (length pre) (Start g \<le> a) (length pre) False
           q1 data b rep False f1
      = storeFrame p s q1 (cutGaps start (End g) (gaps s))
          (take (nat (End g - start)) (drop (nat (start - a)) data)) start
          ((\<not> Start g \<le> a \<and> \<not> rep) \<or> End g < b) cb f1"
    using gs ord pre ag(1) b ends w start_def by (rule placeFrame_over_gap)
  have s: "a \<le> start" "start < End g" using start_def ag g by auto
  have keys: "map_of q1 k = map_of (queue s) k
      \<or> map_of q1 k = None \<and> start \<le> k \<and> k < End g" for k
    using keys1 [of k] start_def w g by (auto simp: inRun_def gs)
  have free: "map_of q1 start = None"
  proof (cases "start = a")
    case True
    with q1(4) show ?thesis by simp
  next
    case False
    then have "start = Start g" "\<not> rep" using start_def by (auto split: if_splits)
    moreover have "map_of (queue s) (Start g) = None"
      using clear _ g by (rule no_entry_at_gap_start) (simp add: gs)
    ultimately show ?thesis using keys [of start] by auto
  qed
  have margin: "start = a \<or> clearOfGaps (gaps s) a start"
    using start_def pre before post g by (auto simp: clearOfGaps_def gs)
  have tail: "End g = a + int (length data) \<or> clearOfGaps (gaps s) (End g) (a + int (length data))"
    using before ends g b by (auto simp: clearOfGaps_def gs)
  show ?thesis
  proof (rule framePlacedI)
    show "placeFrame p s a cb (length pre) (Start g \<le> a) (length pre) False
           q1 data b rep False f1
      = storeFrame p s q1 (cutGaps start (End g) (gaps s))
          (take (nat (End g - start)) (drop (nat (start - a)) data)) start
          ((\<not> Start g \<le> a \<and> \<not> rep) \<or> End g < b) cb f1"
      by (rule eq)
    show "a \<le> start" "start < End g" "End g \<le> a + int (length data)" using s b ends by simp_all
    show "start = a \<or> clearOfGaps (gaps s) a start" by (rule margin)
    show "End g = a + int (length data) \<or> clearOfGaps (gaps s) (End g) (a + int (length data))"
      by (rule tail)
    show "distinct (map fst q1)" "set q1 \<subseteq> set (queue s)"
      "heldCallbacks q1 + mset f1 = heldCallbacks (queue s)" by (rule q1)+
    show "map_of q1 k = map_of (queue s) k
        \<or> map_of q1 k = None \<and> start \<le> k \<and> k < End g" for k
      by (rule keys)
    show "map_of q1 start = None" by (rule free)
  qed
qed

lemma placed_behind_gap:
  assumes gs: "gaps s = pre @ g # post" and ord: "gapsOrdered (gaps s)"
    and pre: "\<forall>x \<in> set pre. End x < a" and ag: "a = End g"
    and b: "b = a + int (length data)" and ends: "\<forall>x \<in> set post. b < Start x"
    and walk: "walked (gaps s) (queue s) a b g q1 e1 True f1"
    and cut: "c1 \<longrightarrow> (\<forall>x \<in> set (gaps s). End x \<le> a \<or> b < Start x)" "\<not> c1 \<longrightarrow> e1 = b"
  shows "framePlaced p s data a cb
     (placeFrame p s a cb (length pre) (Start g \<le> a) (length pre) False
        q1 (take (nat (e1 - a)) data) e1 True c1 f1)"
proof -
  from walk have e1: "a < e1" "e1 \<le> b"
    and q1: "distinct (map fst q1)" "set q1 \<subseteq> set (queue s)"
      "heldCallbacks q1 + mset f1 = heldCallbacks (queue s)" "map_of q1 a = None"
    and keys1: "\<And>k. map_of q1 k = map_of (queue s) k
        \<or> map_of q1 k = None \<and> inRun (gaps s) a k \<and> k < e1"
    by (auto simp: walked_def split: if_splits)
  have eq: "placeFrame p s a cb (length pre) (Start g \<le> a) (length pre) False
           q1 (take (nat (e1 - a)) data) e1 True c1 f1
      = storeFrame p s q1 (cutGaps a e1 (gaps s)) (take (nat (e1 - a)) data) a c1 cb f1"
    using gs ord pre ag e1 ends by (rule placeFrame_behind_gap)
  have tail: "e1 = a + int (length data) \<or> clearOfGaps (gaps s) e1 (a + int (length data))"
    using cut b e1 by (cases c1) (auto simp: clearOfGaps_def)
  show ?thesis
  proof (rule framePlacedI)
    show "placeFrame p s a cb (length pre) (Start g \<le> a) (length pre) False
           q1 (take (nat (e1 - a)) data) e1 True c1 f1
      = storeFrame p s q1 (cutGaps a e1 (gaps s))
          (take (nat (e1 - a)) (drop (nat (a - a)) data)) a c1 cb f1"
      using eq by simp
    show "a \<le> a" "a < e1" "e1 \<le> a + int (length data)" using e1 b by simp_all
    show "a = a \<or> clearOfGaps (gaps s) a a" by simp
    show "e1 = a + int (length data) \<or> clearOfGaps (gaps s) e1 (a + int (length data))"
      by (rule tail)
    show "distinct (map fst q1)" "set q1 \<subseteq> set (queue s)"
      "heldCallbacks q1 + mset f1 = heldCallbacks (queue s)" by (rule q1)+
    show "map_of q1 k = map_of (queue s) k \<or> map_of q1 k = None \<and> a \<le> k \<and> k < e1" for k
      using keys1 [of k] by (auto simp: inRun_def)
    show "map_of q1 a = None" by (rule q1)
  qed
qed

subsection \<open>A push on a well-formed sorter\<close>

lemma walkedI_none:
  assumes "a \<noteq> End g" "distinct (map fst q)" "map_of q a = None"
  shows "walked gs q a b g q b False []"
  using assms by (simp add: walked_def)

lemma push_found:
  assumes "data \<noteq> []" "gaps s \<noteq> []"
    and "findStartGap (gaps s) a = Some (i, startsIn)"
    and "findEndGap (drop i (gaps s)) (a + int (length data)) = Some r"
  shows "push p s data a cb =
      (if a + int (length data) \<le> Start (hd (gaps s))
       then Returned (Some errDuplicateStreamData, s, [])
       else case endGapOf i (fst r) of
              None \<Rightarrow> Panicked
            | Some j \<Rightarrow>
                if (i = j \<and> a + int (length data) \<le> Start (gaps s ! i))
                   \<or> (i \<noteq> j \<and> End (gaps s ! i) \<ge> Start (gaps s ! j)
                       \<and> a + int (length data) \<le> Start (gaps s ! i))
                then Returned (Some errDuplicateStreamData, s, [])
                else pushInto p s data a cb i startsIn j (snd r))"
  using assms(1,2)
  by (cases r) (simp add: push_def Let_def assms(3,4) list.case_eq_if split: option.splits)

lemma push_placed:
  assumes wf: "wfSorter p s" and ne: "data \<noteq> []" and top: "a + int (length data) < MaxByteCount p"
  shows "push p s data a cb = Returned (Some errDuplicateStreamData, s, [])
      \<and> clearOfGaps (gaps s) a (a + int (length data))
    \<or> framePlaced p s data a cb (push p s data a cb)"
proof -
  define b where "b = a + int (length data)"
  from ne b_def have ab: "a < b" by simp
  from wf have gne: "gaps s \<noteq> []" and last: "End (last (gaps s)) = MaxByteCount p"
    and ord: "gapsOrdered (gaps s)" and dist: "distinct (map fst (queue s))"
    and clear: "entriesClear (gaps s) (queue s)"
    and filled: "\<forall>g \<in> set (gaps s). End g < MaxByteCount p \<longrightarrow> map_of (queue s) (End g) \<noteq> None"
    unfolding wfSorter_def by blast+
  from top last have "a \<le> End (last (gaps s))" by simp
  with ord gne obtain pre g post0 where gs0: "gaps s = pre @ g # post0"
    and fs: "findStartGap (gaps s) a = Some (length pre, Start g \<le> a)"
    and pre: "\<forall>x \<in> set pre. End x < a" and ag: "a \<le> End g"
    by (rule findStartGap_decomp)
  from ord have pos: "\<forall>x \<in> set (gaps s). Start x < End x" by (simp add: gapsOrdered_def)
  have "g # post0 \<noteq> []" by simp
  moreover have "b < End (last (g # post0))" using last gs0 top b_def by simp
  moreover have "\<forall>x \<in> set (g # post0). Start x < End x" using pos gs0 by simp
  ultimately obtain mid' h post where l: "g # post0 = mid' @ h # post"
    and mids: "\<forall>x \<in> set mid'. End x \<le> b \<and> Start x \<le> b" and bh: "b < End h"
    and fe: "findEndGap (g # post0) b =
           Some (if Start h \<le> b then (Some (length mid'), True)
                 else (if mid' = [] then None else Some (length mid' - 1), False))"
    by (rule findEndGap_decomp)
  have dropped: "drop (length pre) (gaps s) = g # post0" by (simp add: gs0)
  have gin: "g \<in> set (gaps s)" by (simp add: gs0)
  have gfilled: "a = End g \<longrightarrow> map_of (queue s) a \<noteq> None"
    using filled gin top ab b_def by auto
  have nth_g: "gaps s ! length pre = g" by (simp add: gs0)
  note walk = replaceShorter_cases [OF clear dist ord b_def gin ag gfilled]
  have fe': "findEndGap (drop (length pre) (gaps s)) (a + int (length data)) =
           Some (if Start h \<le> b then (Some (length mid'), True)
                 else (if mid' = [] then None else Some (length mid' - 1), False))"
    using fe by (simp add: dropped b_def)
  have hd_le: "Start (hd (gaps s)) \<le> Start g"
    using ord gs0 by (cases pre) (auto simp: gapsOrdered_append gapsOrdered_Cons dest: gapsOrdered_pos)
  have below: "clearOfGaps (gaps s) a b" if "b \<le> Start g"
    using that pre ord gs0
    by (auto simp: clearOfGaps_def gapsOrdered_append gapsOrdered_Cons)
  note found = push_found [OF ne gne fs fe', of p cb, folded b_def]
  have into: "pushInto p s data a cb i (Start g \<le> a) j e
        = Returned (Some errDuplicateStreamData, s, []) \<and> clearOfGaps (gaps s) a b
      \<or> framePlaced p s data a cb (pushInto p s data a cb i (Start g \<le> a) j e)"
    if placed: "\<And>q1 rep f1. walked (gaps s) (queue s) a b g q1 b rep f1 \<Longrightarrow>
        framePlaced p s data a cb
          (placeFrame p s a cb i (Start g \<le> a) j e q1 data b rep False f1)"
      and nocut: "\<exists>x \<in> set (gaps s). a < End x \<and> Start x \<le> b" for i j e
    using clear dist ord b_def gin ag gfilled
  proof (cases rule: replaceShorter_cases)
    case dup
    then show ?thesis by (simp add: pushInto_def b_def)
  next
    case none
    have "walked (gaps s) (queue s) a b g (queue s) b False []"
      using none dist by (simp add: walked_def)
    from placed [OF this] none(1) show ?thesis by (simp add: pushInto_def b_def)
  next
    case (rep q1 e1 c1 f1)
    from rep(10) nocut have c1: "\<not> c1" by force
    with rep(11) have e1: "e1 = b" by simp
    have "walked (gaps s) (queue s) a b g q1 b True f1"
      using rep e1 by (simp add: walked_def)
    from placed [OF this] rep(1) e1 c1 show ?thesis by (simp add: pushInto_def b_def)
  qed
  have "push p s data a cb = Returned (Some errDuplicateStreamData, s, [])
      \<and> clearOfGaps (gaps s) a b
    \<or> framePlaced p s data a cb (push p s data a cb)"
  proof (cases mid')
    case Nil
    with l have h: "h = g" "post = post0" by simp_all
    show ?thesis
    proof (cases "Start g \<le> b")
      case above: True
      show ?thesis
      proof (cases "b \<le> Start g")
        case True
        with found h Nil above below show ?thesis by (simp add: endGapOf_def nth_g)
      next
        case False
        with found h Nil above hd_le have eq: "push p s data a cb
            = pushInto p s data a cb (length pre) (Start g \<le> a) (length pre) True"
          by (simp add: endGapOf_def nth_g)
        have "pushInto p s data a cb (length pre) (Start g \<le> a) (length pre) True
              = Returned (Some errDuplicateStreamData, s, []) \<and> clearOfGaps (gaps s) a b
            \<or> framePlaced p s data a cb
                (pushInto p s data a cb (length pre) (Start g \<le> a) (length pre) True)"
        proof (rule into)
          fix q1 rep f1 assume "walked (gaps s) (queue s) a b g q1 b rep f1"
          with gs0 ord clear pre ag b_def
          show "framePlaced p s data a cb
              (placeFrame p s a cb (length pre) (Start g \<le> a) (length pre) True
                 q1 data b rep False f1)"
            using False bh h ab by (intro placed_within) simp_all
        next
          from False bh h ab ag gin show "\<exists>x \<in> set (gaps s). a < End x \<and> Start x \<le> b"
            by (intro bexI [of _ g]) auto
        qed
        with eq show ?thesis by simp
      qed
    next
      case False
      show ?thesis
      proof (cases pre)
        case Nil
        with gs0 False found below show ?thesis by simp
      next
        case (Cons x xs)
        then have "pre \<noteq> []" by simp
        then have nth: "gaps s ! (length pre - Suc 0) = last pre"
          by (simp add: gs0 nth_append last_conv_nth)
        have "last pre \<in> set pre" using \<open>pre \<noteq> []\<close> by simp
        with ord gs0 have "Start (last pre) < End (last pre)" "End (last pre) < Start g"
          "Start g < End g"
          by (auto simp: gapsOrdered_append gapsOrdered_Cons dest: gapsOrdered_pos)
        with found h \<open>mid' = []\<close> False \<open>pre \<noteq> []\<close> below show ?thesis
          by (simp add: endGapOf_def nth_g nth)
      qed
    qed
  next
    case (Cons g' mid)
    with l have g': "g' = g" and post0: "post0 = mid @ h # post" by simp_all
    from gs0 post0 have gs: "gaps s = pre @ g # mid @ h # post" by simp
    from ord have "gapsOrdered (pre @ g # mid @ h # post)" by (simp add: gs)
    note o = gapsOrdered_two [OF this]
    from mids Cons g' have gb: "End g \<le> b" "Start g \<le> b"
      and midb: "\<forall>x \<in> set mid. End x \<le> b \<and> Start x \<le> b" by simp_all
    from gb o(1) hd_le have nothd: "\<not> b \<le> Start (hd (gaps s))" "\<not> b \<le> Start g" by simp_all
    have nth_h: "gaps s ! Suc (length pre + length mid) = h"
      by (simp add: gs nth_append)
    show ?thesis
    proof (cases "Start h \<le> b")
      case True
      with found Cons nothd o(5) have eq: "push p s data a cb
          = pushInto p s data a cb (length pre) (Start g \<le> a)
              (Suc (length pre + length mid)) True"
        by (simp add: endGapOf_def nth_g nth_h)
      have "pushInto p s data a cb (length pre) (Start g \<le> a) (Suc (length pre + length mid)) True
            = Returned (Some errDuplicateStreamData, s, []) \<and> clearOfGaps (gaps s) a b
          \<or> framePlaced p s data a cb
              (pushInto p s data a cb (length pre) (Start g \<le> a)
                 (Suc (length pre + length mid)) True)"
      proof (rule into)
        fix q1 rep f1 assume "walked (gaps s) (queue s) a b g q1 b rep f1"
        with gs ord clear pre ag b_def
        show "framePlaced p s data a cb
            (placeFrame p s a cb (length pre) (Start g \<le> a) (Suc (length pre + length mid)) True
               q1 data b rep False f1)"
          using True bh gb midb ab by (intro placed_into_gap) simp_all
      next
        from True bh ab show "\<exists>x \<in> set (gaps s). a < End x \<and> Start x \<le> b"
          by (intro bexI [of _ h]) (auto simp: gs)
      qed
      with eq show ?thesis by simp
    next
      case False
      have later: "\<forall>x \<in> set (h # post). b < Start x" using False o(2) o(6) by auto
      show ?thesis
      proof (cases mid rule: rev_cases)
        case Nil
        with found Cons False nothd have eq: "push p s data a cb
            = pushInto p s data a cb (length pre) (Start g \<le> a) (length pre) False"
          by (simp add: endGapOf_def nth_g)
        from gs Nil have gs1: "gaps s = pre @ g # (h # post)" by simp
        show ?thesis
        proof (cases "a = End g")
          case True
          from clear dist ord b_def gin ag gfilled show ?thesis
          proof (cases rule: replaceShorter_cases)
            case dup
            with eq show ?thesis by (simp add: pushInto_def b_def)
          next
            case none
            with True show ?thesis by simp
          next
            case (rep q1 e1 c1 f1)
            have "walked (gaps s) (queue s) a b g q1 e1 True f1"
              using rep by (simp add: walked_def)
            with gs1 ord pre True b_def later
            have "framePlaced p s data a cb
               (placeFrame p s a cb (length pre) (Start g \<le> a) (length pre) False
                  q1 (take (nat (e1 - a)) data) e1 True c1 f1)"
              using rep(10) rep(11) by (rule placed_behind_gap)
            with eq rep(1) show ?thesis by (simp add: pushInto_def b_def)
          qed
        next
          case ne: False
          have "pushInto p s data a cb (length pre) (Start g \<le> a) (length pre) False
                = Returned (Some errDuplicateStreamData, s, []) \<and> clearOfGaps (gaps s) a b
              \<or> framePlaced p s data a cb
                  (pushInto p s data a cb (length pre) (Start g \<le> a) (length pre) False)"
          proof (rule into)
            fix q1 rep f1 assume "walked (gaps s) (queue s) a b g q1 b rep f1"
            with gs1 ord clear pre ag ne b_def ab gb(1) later
            show "framePlaced p s data a cb
                (placeFrame p s a cb (length pre) (Start g \<le> a) (length pre) False
                   q1 data b rep False f1)"
              by (rule placed_over_gap)
          next
            from ne ag gb gin show "\<exists>x \<in> set (gaps s). a < End x \<and> Start x \<le> b"
              by (intro bexI [of _ g]) auto
          qed
          with eq show ?thesis by simp
        qed
      next
        case (snoc mid0 h')
        from gs snoc have gs2: "gaps s = pre @ g # mid0 @ h' # (h # post)" by simp
        from o(4) snoc have h': "End g < Start h'" "Start h' < End h'" by simp_all
        from midb snoc have h'b: "End h' \<le> b" "Start h' \<le> b" by simp_all
        have nth_h': "gaps s ! Suc (length pre + length mid0) = h'"
          by (simp add: gs2 nth_append)
        from found Cons False nothd snoc h' have eq: "push p s data a cb
            = pushInto p s data a cb (length pre) (Start g \<le> a)
                (Suc (length pre + length mid0)) False"
          by (simp add: endGapOf_def nth_g nth_h')
        have "pushInto p s data a cb (length pre) (Start g \<le> a) (Suc (length pre + length mid0)) False
              = Returned (Some errDuplicateStreamData, s, []) \<and> clearOfGaps (gaps s) a b
            \<or> framePlaced p s data a cb
                (pushInto p s data a cb (length pre) (Start g \<le> a)
                   (Suc (length pre + length mid0)) False)"
        proof (rule into)
          fix q1 rep f1 assume "walked (gaps s) (queue s) a b g q1 b rep f1"
          with gs2 ord clear pre ag b_def ab h'b(1) later
          show "framePlaced p s data a cb
              (placeFrame p s a cb (length pre) (Start g \<le> a) (Suc (length pre + length mid0)) False
                 q1 data b rep False f1)"
            by (rule placed_over_gaps)
        next
          from ag h' h'b show "\<exists>x \<in> set (gaps s). a < End x \<and> Start x \<le> b"
            by (intro bexI [of _ h']) (auto simp: gs2)
        qed
        with eq show ?thesis by simp
      qed
    qed
  qed
  then show ?thesis by (simp add: b_def)
qed

subsection \<open>The sorter a push leaves\<close>

lemma cutGaps_covered:
  assumes pos: "\<forall>g \<in> set gs. Start g < End g" and "a \<le> start" "start < stop" "stop \<le> b"
    and "start = a \<or> clearOfGaps gs a start" and "stop = b \<or> clearOfGaps gs stop b"
  shows "clearOfGaps (cutGaps start stop gs) a b"
  unfolding clearOfGaps_def
proof
  fix y assume "y \<in> set (cutGaps start stop gs)"
  then obtain g where g: "g \<in> set gs" "y \<in> set (cutGap start stop g)" by (rule cutGaps_piece)
  with pos cutGap_piece [of y start stop g]
  have y: "Start g \<le> Start y" "End y \<le> End g" "Start y < End y"
    "stop \<le> Start y \<or> End y \<le> start" by simp_all
  from assms(5) g(1) have "start = a \<or> start \<le> Start g \<or> End g \<le> a"
    by (auto simp: clearOfGaps_def)
  moreover from assms(6) g(1) have "stop = b \<or> b \<le> Start g \<or> End g \<le> stop"
    by (auto simp: clearOfGaps_def)
  ultimately show "b \<le> Start y \<or> End y \<le> a" using y assms(2-4) by auto
qed

lemma clearOfGaps_within:
  "clearOfGaps gs a b \<Longrightarrow> a \<le> c \<Longrightarrow> d \<le> b \<Longrightarrow> clearOfGaps gs c d"
  by (fastforce simp: clearOfGaps_def)

lemma set_update_subset: "set (AList.update k v q) \<subseteq> insert (k, v) (set q)"
  by (induction q) auto

lemma storeFrame_cases:
  obtains (many) f' where
      "storeFrame p s q gs d st w cb f = Returned (Some errTooManyGaps, s\<lparr>queue := q, gaps := gs\<rparr>, f')"
      "MaxStreamFrameSorterGaps p < length gs"
  | (ok) f' cb' where
      "storeFrame p s q gs d st w cb f
         = Returned (None, s\<lparr>queue := AList.update st \<lparr>Data = d, DoneCb = cb'\<rparr> q, gaps := gs\<rparr>, f')"
      "length gs \<le> MaxStreamFrameSorterGaps p"
      "mset f' + mset (fire cb' []) = mset f + mset (fire cb [])"
  by (cases "length gs > MaxStreamFrameSorterGaps p";
      cases "w \<and> length d < MinStreamFrameBufferSize p")
    (auto simp: storeFrame_def Let_def fire_def split: option.splits)

lemma placed_cases:
  assumes wf: "wfSorter p s" and top: "a + int (length data) < MaxByteCount p"
    and placed: "framePlaced p s data a cb r"
  obtains (many) s' fired where "r = Returned (Some errTooManyGaps, s', fired)"
      "MaxStreamFrameSorterGaps p < length (gaps s')"
      "\<not> clearOfGaps (gaps s) a (a + int (length data))"
  | (ok) s' fired where "r = Returned (None, s', fired)" "wfSorter p s'" "readPos s' = readPos s"
      "heldCallbacks (queue s') + mset fired = heldCallbacks (queue s) + mset (fire cb [])"
      "clearOfGaps (gaps s') a (a + int (length data))"
      "clearOfGaps (gaps s) a (a + int (length data)) \<longrightarrow> gaps s' = gaps s"
proof -
  define b where "b = a + int (length data)"
  from wf have gne: "gaps s \<noteq> []" and last: "End (last (gaps s)) = MaxByteCount p"
    and ord: "gapsOrdered (gaps s)" and dist: "distinct (map fst (queue s))"
    and clear: "entriesClear (gaps s) (queue s)"
    and filled: "\<forall>g \<in> set (gaps s). End g < MaxByteCount p \<longrightarrow> map_of (queue s) (End g) \<noteq> None"
    and rp: "readPos s \<le> Start (hd (gaps s))"
    and count: "length (gaps s) \<le> MaxStreamFrameSorterGaps p"
    unfolding wfSorter_def by blast+
  from ord have pos: "\<forall>x \<in> set (gaps s). Start x < End x" by (simp add: gapsOrdered_def)
  from placed obtain start stop q2 f2 wasCut where
    r: "r = storeFrame p s q2 (cutGaps start stop (gaps s))
              (take (nat (stop - start)) (drop (nat (start - a)) data)) start wasCut cb f2"
    and se0: "a \<le> start" "start < stop" "stop \<le> a + int (length data)"
    and m10: "start = a \<or> clearOfGaps (gaps s) a start"
    and m20: "stop = a + int (length data) \<or> clearOfGaps (gaps s) stop (a + int (length data))"
    and q2: "distinct (map fst q2)" "set q2 \<subseteq> set (queue s)"
      "heldCallbacks q2 + mset f2 = heldCallbacks (queue s)"
    and keys0: "\<forall>k. map_of q2 k = map_of (queue s) k
        \<or> map_of q2 k = None \<and> start \<le> k \<and> k < stop"
    and free: "map_of q2 start = None"
    by (rule framePlacedE)
  note se = se0 [folded b_def] and m1 = m10 and m2 = m20 [folded b_def]
  from keys0 have keys: "map_of q2 k = map_of (queue s) k
        \<or> map_of q2 k = None \<and> start \<le> k \<and> k < stop" for k by blast
  let ?gs = "cutGaps start stop (gaps s)"
  let ?d = "take (nat (stop - start)) (drop (nat (start - a)) data)"
  have same: "?gs = gaps s" if "clearOfGaps (gaps s) a b"
  proof -
    from that se have "clearOfGaps (gaps s) start stop" by (simp add: clearOfGaps_within)
    then show ?thesis by (rule cutGaps_clear_same)
  qed
  have len: "int (length ?d) = stop - start" using se b_def by simp
  show thesis
  proof (cases rule: storeFrame_cases [of p s q2 ?gs ?d start wasCut cb f2])
    case (many f')
    have uncovered: "\<not> clearOfGaps (gaps s) a b" using many(2) same count by auto
    show ?thesis
    proof (rule that(1))
      show "r = Returned (Some errTooManyGaps, s\<lparr>queue := q2, gaps := ?gs\<rparr>, f')"
        using r many(1) by simp
      show "MaxStreamFrameSorterGaps p < length (gaps (s\<lparr>queue := q2, gaps := ?gs\<rparr>))"
        using many(2) by simp
      show "\<not> clearOfGaps (gaps s) a (a + int (length data))"
        using uncovered by (simp add: b_def)
    qed
  next
    case (ok f' cb')
    let ?e = "\<lparr>Data = ?d, DoneCb = cb'\<rparr>"
    let ?s' = "s\<lparr>queue := AList.update start ?e q2, gaps := ?gs\<rparr>"
    from top se last have "stop < End (last (gaps s))" by (simp add: b_def)
    with gne se pos have lastg: "?gs \<noteq> [] \<and> End (last ?gs) = End (last (gaps s))"
      by (intro cutGaps_last) simp_all
    have ordg: "gapsOrdered ?gs" using ord se by (intro cutGaps_ordered) simp_all
    have distq: "distinct (map fst (AList.update start ?e q2))"
      using q2(1) by (rule distinct_update)
    have clearq: "entriesClear ?gs (AList.update start ?e q2)"
      unfolding entriesClear_def
    proof (clarify, intro conjI)
      fix k e assume "(k, e) \<in> set (AList.update start ?e q2)"
      then consider "k = start" "e = ?e" | "(k, e) \<in> set q2"
        using set_update_subset [of start ?e q2] by auto
      then have "Data e \<noteq> [] \<and> clearOfGaps ?gs k (k + entryLen e)"
      proof cases
        case 1
        have "clearOfGaps ?gs start stop" using pos by (rule cutGaps_clear_new)
        with 1 len se show ?thesis by (auto simp: entryLen_def)
      next
        case 2
        with q2(2) clear have "Data e \<noteq> []" "clearOfGaps (gaps s) k (k + entryLen e)"
          by (auto simp: entriesClear_def)
        with pos show ?thesis by (simp add: cutGaps_clear_old)
      qed
      then show "Data e \<noteq> []" "clearOfGaps ?gs k (k + entryLen e)" by simp_all
    qed
    have filledq: "\<forall>y \<in> set ?gs. End y < MaxByteCount p \<longrightarrow>
        map_of (AList.update start ?e q2) (End y) \<noteq> None"
    proof (intro ballI impI)
      fix y assume "y \<in> set ?gs" and lt: "End y < MaxByteCount p"
      then obtain g where g: "g \<in> set (gaps s)" "y \<in> set (cutGap start stop g)"
        by (auto elim: cutGaps_piece)
      with pos cutGap_piece [of y start stop g]
      have y: "End y = End g \<and> (stop \<le> Start g \<or> End g \<le> start \<or> stop < End g)
          \<or> End y = start" and gpos: "Start g < End g" by auto
      show "map_of (AList.update start ?e q2) (End y) \<noteq> None"
      proof (cases "End y = start")
        case True
        then show ?thesis by (simp add: update_conv')
      next
        case False
        with y have eg: "End y = End g" "stop \<le> Start g \<or> End g \<le> start \<or> stop < End g"
          by simp_all
        with filled g(1) lt have "map_of (queue s) (End g) \<noteq> None" by simp
        moreover from eg gpos have "\<not> (start \<le> End g \<and> End g < stop) \<or> End g = start"
          by auto
        ultimately have "map_of q2 (End g) \<noteq> None" using keys [of "End g"] False eg(1) by auto
        with eg(1) False show ?thesis by (simp add: update_conv')
      qed
    qed
    have rpq: "readPos s \<le> Start (hd ?gs)"
      using rp cutGaps_hd [OF ord gne, of start stop] lastg by simp
    have wf': "wfSorter p ?s'"
      unfolding wfSorter_def using lastg last ordg distq clearq filledq rpq ok(2) by simp
    have held: "heldCallbacks (AList.update start ?e q2) + mset f'
        = heldCallbacks (queue s) + mset (fire cb [])"
    proof -
      have "heldCallbacks (AList.update start ?e q2) + mset f'
          = heldCallbacks q2 + (mset f' + mset (fire cb' []))"
        using heldCallbacks_update [OF free, of ?e] by (simp add: ac_simps)
      also have "\<dots> = heldCallbacks q2 + (mset f2 + mset (fire cb []))"
        by (simp only: ok(3))
      also have "\<dots> = heldCallbacks (queue s) + mset (fire cb [])"
        by (simp only: q2(3) [symmetric] add.assoc)
      finally show ?thesis .
    qed
    have cov: "clearOfGaps ?gs a b" using pos se m1 m2 by (rule cutGaps_covered)
    show ?thesis
    proof (rule that(2))
      show "r = Returned (None, ?s', f')" using r ok(1) by simp
      show "wfSorter p ?s'" by (rule wf')
      show "readPos ?s' = readPos s" by simp
      show "heldCallbacks (queue ?s') + mset f' = heldCallbacks (queue s) + mset (fire cb [])"
        using held by simp
      show "clearOfGaps (gaps ?s') a (a + int (length data))" using cov by (simp add: b_def)
      show "clearOfGaps (gaps s) a (a + int (length data)) \<longrightarrow> gaps ?s' = gaps s"
        using same by (simp add: b_def)
    qed
  qed
qed

subsection \<open>Push and Pop on a well-formed sorter\<close>

lemma Push_cases:
  assumes wf: "wfSorter p s" and range: "data = [] \<or> a + int (length data) < MaxByteCount p"
  obtains (many) s' fired where "Push p s data a cb = Returned (Some errTooManyGaps, s', fired)"
      "MaxStreamFrameSorterGaps p < length (gaps s')" "data \<noteq> []"
      "\<not> clearOfGaps (gaps s) a (a + int (length data))"
  | (ok) s' fired where "Push p s data a cb = Returned (None, s', fired)" "wfSorter p s'"
      "readPos s' = readPos s"
      "heldCallbacks (queue s') + mset fired = heldCallbacks (queue s) + mset (fire cb [])"
      "data \<noteq> [] \<longrightarrow> clearOfGaps (gaps s') a (a + int (length data))"
      "data = [] \<or> clearOfGaps (gaps s) a (a + int (length data)) \<longrightarrow> gaps s' = gaps s"
      "data = [] \<longrightarrow> s' = s \<and> fired = fire cb []"
proof (cases "data = []")
  case True
  then have "Push p s data a cb = Returned (None, s, fire cb [])"
    by (simp add: Push_def push_def)
  with wf True show ?thesis by (intro that(2) [of s "fire cb []"]) simp_all
next
  case False
  with range have top: "a + int (length data) < MaxByteCount p" by simp
  from push_placed [OF wf False top, of cb]
  consider "push p s data a cb = Returned (Some errDuplicateStreamData, s, [])"
      "clearOfGaps (gaps s) a (a + int (length data))"
    | "framePlaced p s data a cb (push p s data a cb)" by blast
  then show ?thesis
  proof cases
    case 1
    then have "Push p s data a cb = Returned (None, s, fire cb [])" by (simp add: Push_def)
    with wf False 1(2) show ?thesis by (intro that(2) [of s "fire cb []"]) simp_all
  next
    case 2
    from wf top 2 show ?thesis
    proof (cases rule: placed_cases)
      case (many s' fired)
      from many(1) have "Push p s data a cb = Returned (Some errTooManyGaps, s', fired)"
        by (simp add: Push_def)
      with many(2,3) False show ?thesis by (intro that(1) [of s' fired]) simp_all
    next
      case (ok s' fired)
      from ok(1) have "Push p s data a cb = Returned (None, s', fired)"
        by (simp add: Push_def)
      with ok(2-6) False show ?thesis by (intro that(2) [of s' fired]) simp_all
    qed
  qed
qed

text \<open>
  A frame that is not empty and ends at \<open>MaxByteCount\<close> or behind it ends in no gap
  and before none: \<open>findEndGap\<close> runs off the list and panics.
\<close>

lemma findEndGap_beyond:
  "\<forall>x \<in> set l. Start x \<le> b \<and> End x \<le> b \<Longrightarrow> findEndGap l b = None"
  by (induction l) auto

lemma gapsOrdered_le_last:
  "gapsOrdered gs \<Longrightarrow> x \<in> set gs \<Longrightarrow> End x \<le> End (last gs)"
proof (induction gs)
  case Nil
  then show ?case by simp
next
  case (Cons g gs)
  show ?case
  proof (cases "gs = []")
    case True
    with Cons.prems show ?thesis by simp
  next
    case False
    then have l: "last gs \<in> set gs" by simp
    from Cons.prems(1) have rest: "gapsOrdered gs" and lt: "\<forall>h \<in> set gs. End g < Start h"
      by (simp_all add: gapsOrdered_Cons)
    from lt l have "End g < Start (last gs)" by simp
    moreover from rest l have "Start (last gs) < End (last gs)" by (rule gapsOrdered_pos)
    ultimately have "End g \<le> End (last gs)" by simp
    with Cons.IH [OF rest] Cons.prems(2) False show ?thesis by auto
  qed
qed

lemma Push_beyond_panics:
  assumes wf: "wfSorter p s" and ne: "data \<noteq> []"
    and beyond: "MaxByteCount p \<le> a + int (length data)"
  shows "Push p s data a cb = Panicked"
proof -
  from wf have gne: "gaps s \<noteq> []" and last: "End (last (gaps s)) = MaxByteCount p"
    and ord: "gapsOrdered (gaps s)"
    unfolding wfSorter_def by blast+
  have all: "\<forall>x \<in> set (gaps s). Start x \<le> a + int (length data)
      \<and> End x \<le> a + int (length data)"
    using gapsOrdered_le_last [OF ord] gapsOrdered_pos [OF ord] last beyond by fastforce
  have "findEndGap (drop i (gaps s)) (a + int (length data)) = None" for i
    using all by (intro findEndGap_beyond) (auto dest: in_set_dropD)
  moreover have "\<not> a + int (length data) \<le> Start (hd (gaps s))"
  proof -
    from gne have h: "hd (gaps s) \<in> set (gaps s)" by simp
    with all have "End (hd (gaps s)) \<le> a + int (length data)" by simp
    moreover from ord h have "Start (hd (gaps s)) < End (hd (gaps s))" by (rule gapsOrdered_pos)
    ultimately show ?thesis by simp
  qed
  ultimately have "push p s data a cb = Panicked"
    using ne gne by (simp add: push_def Let_def list.case_eq_if split: option.splits)
  then show ?thesis by (simp add: Push_def)
qed

lemma Pop_cases:
  assumes wf: "wfSorter p s"
  obtains (empty) "Pop s = Returned ((readPos s, None, None), s)" "map_of (queue s) (readPos s) = None"
  | (entry) e s' where "Pop s = Returned ((readPos s, Some (Data e), DoneCb e), s')"
      "map_of (queue s) (readPos s) = Some e" "wfSorter p s'" "gaps s' = gaps s"
      "readPos s' = readPos s + entryLen e"
      "heldCallbacks (queue s') + mset (fire (DoneCb e) []) = heldCallbacks (queue s)"
proof (cases "map_of (queue s) (readPos s)")
  case None
  then show ?thesis by (intro that(1)) (simp_all add: Pop_def)
next
  case (Some e)
  from wf have gne: "gaps s \<noteq> []" and last: "End (last (gaps s)) = MaxByteCount p"
    and ord: "gapsOrdered (gaps s)" and dist: "distinct (map fst (queue s))"
    and clear: "entriesClear (gaps s) (queue s)"
    and filled: "\<forall>g \<in> set (gaps s). End g < MaxByteCount p \<longrightarrow> map_of (queue s) (End g) \<noteq> None"
    and rp: "readPos s \<le> Start (hd (gaps s))"
    and count: "length (gaps s) \<le> MaxStreamFrameSorterGaps p"
    unfolding wfSorter_def by blast+
  from gne obtain front others where fr: "gaps s = front # others" by (cases "gaps s") simp_all
  from ord fr have front: "Start front < End front" "\<forall>x \<in> set others. End front < Start x"
    and pos: "\<forall>x \<in> set (gaps s). Start x < End x"
    by (auto simp: gapsOrdered_Cons dest: gapsOrdered_pos)
  from entriesClear_lookup [OF clear Some] have e: "Data e \<noteq> []"
    "clearOfGaps (gaps s) (readPos s) (readPos s + entryLen e)" by simp_all
  from e(2) fr have "readPos s + entryLen e \<le> Start front \<or> End front \<le> readPos s"
    by (simp add: clearOfGaps_def)
  with rp fr front have below: "readPos s + entryLen e \<le> Start front" by simp
  let ?s' = "s\<lparr>queue := AList.delete (readPos s) (queue s), readPos := readPos s + entryLen e\<rparr>"
  have pop: "Pop s = Returned ((readPos s, Some (Data e), DoneCb e), ?s')"
    using Some fr below front by (simp add: Pop_def Let_def)
  have keep: "map_of (AList.delete (readPos s) (queue s)) (End g) \<noteq> None"
    if "g \<in> set (gaps s)" "End g < MaxByteCount p" for g
  proof -
    from that(1) fr front rp pos have "readPos s < End g" by fastforce
    with that filled show ?thesis by (simp add: delete_conv')
  qed
  have wf': "wfSorter p ?s'"
    unfolding wfSorter_def
    using gne last ord dist entriesClear_delete [OF clear, of "readPos s"] keep below fr count
    by (simp add: distinct_delete)
  show ?thesis
  proof (rule that(2))
    show "Pop s = Returned ((readPos s, Some (Data e), DoneCb e), ?s')" by (rule pop)
    show "map_of (queue s) (readPos s) = Some e" by (rule Some)
    show "wfSorter p ?s'" by (rule wf')
    show "gaps ?s' = gaps s" by simp
    show "readPos ?s' = readPos s + entryLen e" by simp
    show "heldCallbacks (queue ?s') + mset (fire (DoneCb e) []) = heldCallbacks (queue s)"
      using heldCallbacks_delete [OF dist Some] by simp
  qed
qed

subsection \<open>Call sequences\<close>

lemma wf_new:
  "0 < MaxByteCount p \<Longrightarrow> 1 \<le> MaxStreamFrameSorterGaps p \<Longrightarrow> wfSorter p (newFrameSorter p)"
  by (simp add: wfSorter_def newFrameSorter_def gapsOrdered_def entriesClear_def)

lemma push_onto_entry:
  assumes "map_of (queue s) a = Some e" "int (length data) \<le> entryLen e"
    and "push p s data a cb = Returned r"
  shows "r = (Some errDuplicateStreamData, s, [])"
proof -
  from assms(1,2) have "replaceShorter (queue s) data a (a + int (length data)) a False []
      = WalkDuplicate"
    by (simp add: replaceShorter.simps [of "queue s"])
  then have "pushInto p s data a cb i x j y = Returned (Some errDuplicateStreamData, s, [])"
    for i x j y by (simp add: pushInto_def)
  with assms(3) show ?thesis
    by (auto simp: push_def Let_def split: if_splits list.splits option.splits prod.splits)
qed

lemma runSorter_accounting:
  assumes "wfSorter p s" "framesInRange p calls"
    and "\<forall>ev \<in> set (fst (runSorter p s calls)). \<not> pushFailed ev"
  shows "Crashed \<notin> set (fst (runSorter p s calls))
    \<and> length (fst (runSorter p s calls)) = length calls
    \<and> wfSorter p (snd (runSorter p s calls))
    \<and> pushedCallbacks calls + heldCallbacks (queue s)
        = invokedCallbacks (fst (runSorter p s calls))
          + heldCallbacks (queue (snd (runSorter p s calls)))"
  using assms
proof (induction calls arbitrary: s)
  case Nil
  then show ?case by simp
next
  case (Cons call calls)
  show ?case
  proof (cases call)
    case (CallPush data a cb)
    with Cons.prems(2) have top: "data = [] \<or> a + int (length data) < MaxByteCount p"
      and rest: "framesInRange p calls" by simp_all
    from Cons.prems(1) top show ?thesis
    proof (cases rule: Push_cases [where cb = cb])
      case (many s' fired)
      from many(1) have "runSorter p s (CallPush data a cb # calls)
          = (PushReturned (Some errTooManyGaps) fired # fst (runSorter p s' calls),
             snd (runSorter p s' calls))"
        by simp
      with CallPush Cons.prems(3) show ?thesis by (simp del: runSorter.simps)
    next
      case (ok s' fired)
      from ok(1) have run: "runSorter p s (CallPush data a cb # calls)
          = (PushReturned None fired # fst (runSorter p s' calls), snd (runSorter p s' calls))"
        by simp
      with Cons.prems(3) have "\<forall>ev \<in> set (fst (runSorter p s' calls)). \<not> pushFailed ev"
        by (simp add: CallPush del: runSorter.simps)
      from Cons.IH [OF ok(2) rest this]
      have ih: "Crashed \<notin> set (fst (runSorter p s' calls))"
        "length (fst (runSorter p s' calls)) = length calls"
        "wfSorter p (snd (runSorter p s' calls))"
        "pushedCallbacks calls + heldCallbacks (queue s')
          = invokedCallbacks (fst (runSorter p s' calls))
            + heldCallbacks (queue (snd (runSorter p s' calls)))"
        by simp_all
      let ?I = "invokedCallbacks (fst (runSorter p s' calls))"
      let ?H = "heldCallbacks (queue (snd (runSorter p s' calls)))"
      have "mset (fire cb []) + pushedCallbacks calls + heldCallbacks (queue s)
          = pushedCallbacks calls + (heldCallbacks (queue s) + mset (fire cb []))"
        by (simp add: ac_simps)
      also have "\<dots> = pushedCallbacks calls + (heldCallbacks (queue s') + mset fired)"
        by (simp only: ok(4))
      also have "\<dots> = (pushedCallbacks calls + heldCallbacks (queue s')) + mset fired"
        by (simp add: ac_simps)
      also have "\<dots> = (?I + ?H) + mset fired" by (simp only: ih(4))
      also have "\<dots> = mset fired + ?I + ?H" by (simp add: ac_simps)
      finally have "pushedCallbacks (CallPush data a cb # calls) + heldCallbacks (queue s)
          = invokedCallbacks (fst (runSorter p s (CallPush data a cb # calls)))
            + heldCallbacks (queue (snd (runSorter p s (CallPush data a cb # calls))))"
        by (simp add: run del: runSorter.simps)
      with ih(1-3) show ?thesis unfolding CallPush by (simp add: run del: runSorter.simps)
    qed
  next
    case CallPop
    with Cons.prems(2) have rest: "framesInRange p calls" by simp
    from Cons.prems(1) show ?thesis
    proof (cases rule: Pop_cases)
      case empty
      from empty(1) have run: "runSorter p s (CallPop # calls)
          = (PopReturned (readPos s) None None # fst (runSorter p s calls),
             snd (runSorter p s calls))"
        by simp
      with Cons.prems(3) have "\<forall>ev \<in> set (fst (runSorter p s calls)). \<not> pushFailed ev"
        by (simp add: CallPop del: runSorter.simps)
      from Cons.IH [OF Cons.prems(1) rest this] show ?thesis
        unfolding CallPop by (simp add: run fire_def del: runSorter.simps)
    next
      case (entry e s')
      from entry(1) have run: "runSorter p s (CallPop # calls)
          = (PopReturned (readPos s) (Some (Data e)) (DoneCb e) # fst (runSorter p s' calls),
             snd (runSorter p s' calls))"
        by simp
      with Cons.prems(3) have "\<forall>ev \<in> set (fst (runSorter p s' calls)). \<not> pushFailed ev"
        by (simp add: CallPop del: runSorter.simps)
      from Cons.IH [OF entry(3) rest this]
      have ih: "Crashed \<notin> set (fst (runSorter p s' calls))"
        "length (fst (runSorter p s' calls)) = length calls"
        "wfSorter p (snd (runSorter p s' calls))"
        "pushedCallbacks calls + heldCallbacks (queue s')
          = invokedCallbacks (fst (runSorter p s' calls))
            + heldCallbacks (queue (snd (runSorter p s' calls)))"
        by simp_all
      let ?I = "invokedCallbacks (fst (runSorter p s' calls))"
      let ?H = "heldCallbacks (queue (snd (runSorter p s' calls)))"
      have "pushedCallbacks calls + heldCallbacks (queue s)
          = pushedCallbacks calls + (heldCallbacks (queue s') + mset (fire (DoneCb e) []))"
        by (simp only: entry(6))
      also have "\<dots> = (pushedCallbacks calls + heldCallbacks (queue s'))
          + mset (fire (DoneCb e) [])"
        by (simp add: ac_simps)
      also have "\<dots> = (?I + ?H) + mset (fire (DoneCb e) [])" by (simp only: ih(4))
      also have "\<dots> = mset (fire (DoneCb e) []) + ?I + ?H" by (simp add: ac_simps)
      finally have "pushedCallbacks (CallPop # calls) + heldCallbacks (queue s)
          = invokedCallbacks (fst (runSorter p s (CallPop # calls)))
            + heldCallbacks (queue (snd (runSorter p s (CallPop # calls))))"
        by (simp add: run del: runSorter.simps)
      with ih(1-3) show ?thesis unfolding CallPop by (simp add: run del: runSorter.simps)
    qed
  qed
qed

section \<open>The frame sorter: callbacks, repeated pushes and errors\<close>

text \<open>
  C3, as stated, fails on one return path of \<open>push\<close>: when the push fails with too many
  gaps, the callback of the frame is neither called nor queued. With
  \<open>MaxStreamFrameSorterGaps\<close> at 1, the first frame at offset 5 is refused; its callback
  1 is not among the callbacks invoked and the queue is empty. And a frame that ends at
  \<open>MaxByteCount\<close> makes \<open>findEndGap\<close> panic, on a new sorter already.
\<close>

theorem callbacks_dropped_counterexample:
  "runSorter (quicGo\<lparr>MaxStreamFrameSorterGaps := 1\<rparr>)
     (newFrameSorter (quicGo\<lparr>MaxStreamFrameSorterGaps := 1\<rparr>))
     [CallPush ''A'' 5 (Some 1), CallPop]
     = ([PushReturned (Some errTooManyGaps) [], PopReturned 0 None None],
        \<lparr>queue = [], readPos = 0,
         gaps = [\<lparr>Start = 0, End = 5\<rparr>, \<lparr>Start = 6, End = MaxByteCount quicGo\<rparr>]\<rparr>)
   \<and> pushedCallbacks [CallPush ''A'' 5 (Some 1), CallPop] = {#1#}
   \<and> invokedCallbacks [PushReturned (Some errTooManyGaps) [], PopReturned 0 None None] = {#}
   \<and> heldCallbacks [] = {#}
   \<and> runSorter quicGo (newFrameSorter quicGo)
        [CallPush ''A'' (MaxByteCount quicGo - 1) (Some 1), CallPop]
     = ([Crashed], newFrameSorter quicGo)"
  by (simp add: sorter_eval heldCallbacks_def)

text \<open>
  C3, amended: over every sequence of \<open>Push\<close> and \<open>Pop\<close> calls on a new sorter, with
  frames that are empty or end below \<open>MaxByteCount\<close>, in which no \<open>Push\<close> returns an
  error, no call panics, and the callbacks passed to \<open>Push\<close> are, each as often as it
  was passed, the callbacks invoked (called by a \<open>Push\<close> or handed out by a \<open>Pop\<close>)
  together with the callbacks the queued entries still hold: none is invoked twice and
  none is dropped.
\<close>

theorem callbacks_invoked_once:
  assumes "0 < MaxByteCount p" "1 \<le> MaxStreamFrameSorterGaps p" "framesInRange p calls"
    and "list_all (\<lambda>ev. \<not> pushFailed ev) (fst (runSorter p (newFrameSorter p) calls))"
  shows "Crashed \<notin> set (fst (runSorter p (newFrameSorter p) calls))
    \<and> length (fst (runSorter p (newFrameSorter p) calls)) = length calls
    \<and> pushedCallbacks calls
        = invokedCallbacks (fst (runSorter p (newFrameSorter p) calls))
          + heldCallbacks (queue (snd (runSorter p (newFrameSorter p) calls)))"
proof -
  from assms(1,2) have "wfSorter p (newFrameSorter p)" by (rule wf_new)
  moreover from assms(4)
  have "\<forall>ev \<in> set (fst (runSorter p (newFrameSorter p) calls)). \<not> pushFailed ev"
    by (simp add: list_all_iff)
  ultimately show ?thesis
    using runSorter_accounting [of p "newFrameSorter p" calls] assms(3)
    by (simp add: newFrameSorter_def)
qed

theorem callbacks_invoked_once_witness:
  "0 < MaxByteCount quicGo \<and> 1 \<le> MaxStreamFrameSorterGaps quicGo
   \<and> framesInRange quicGo
        [CallPush ''f'' 5 (Some 8), CallPush ''ghij'' 6 (Some 2), CallPush ''cdefg'' 2 (Some 3),
         CallPush ''cdefg'' 2 (Some 4), CallPush ''ab'' 0 (Some 5), CallPush ''ab'' 0 (Some 6),
         CallPop, CallPop, CallPush ''klm'' 10 (Some 7)]
   \<and> fst (runSorter quicGo (newFrameSorter quicGo)
        [CallPush ''f'' 5 (Some 8), CallPush ''ghij'' 6 (Some 2), CallPush ''cdefg'' 2 (Some 3),
         CallPush ''cdefg'' 2 (Some 4), CallPush ''ab'' 0 (Some 5), CallPush ''ab'' 0 (Some 6),
         CallPop, CallPop, CallPush ''klm'' 10 (Some 7)])
      = [PushReturned None [], PushReturned None [], PushReturned None [3],
         PushReturned None [8, 4], PushReturned None [], PushReturned None [6],
         PopReturned 0 (Some ''ab'') (Some 5), PopReturned 2 (Some ''cdef'') None,
         PushReturned None []]
   \<and> pushedCallbacks
        [CallPush ''f'' 5 (Some 8), CallPush ''ghij'' 6 (Some 2), CallPush ''cdefg'' 2 (Some 3),
         CallPush ''cdefg'' 2 (Some 4), CallPush ''ab'' 0 (Some 5), CallPush ''ab'' 0 (Some 6),
         CallPop, CallPop, CallPush ''klm'' 10 (Some 7)]
      = invokedCallbacks
          [PushReturned None [], PushReturned None [], PushReturned None [3],
           PushReturned None [8, 4], PushReturned None [], PushReturned None [6],
           PopReturned 0 (Some ''ab'') (Some 5), PopReturned 2 (Some ''cdef'') None,
           PushReturned None []]
        + heldCallbacks
            [(6, \<lparr>Data = ''ghij'', DoneCb = Some 2\<rparr>), (10, \<lparr>Data = ''klm'', DoneCb = Some 7\<rparr>)]"
proof -
  let ?calls = "[CallPush ''f'' 5 (Some 8), CallPush ''ghij'' 6 (Some 2),
     CallPush ''cdefg'' 2 (Some 3), CallPush ''cdefg'' 2 (Some 4), CallPush ''ab'' 0 (Some 5),
     CallPush ''ab'' 0 (Some 6), CallPop, CallPop, CallPush ''klm'' 10 (Some 7)]"
  have run: "runSorter quicGo (newFrameSorter quicGo) ?calls
      = ([PushReturned None [], PushReturned None [], PushReturned None [3],
          PushReturned None [8, 4], PushReturned None [], PushReturned None [6],
          PopReturned 0 (Some ''ab'') (Some 5), PopReturned 2 (Some ''cdef'') None,
          PushReturned None []],
         \<lparr>queue = [(6, \<lparr>Data = ''ghij'', DoneCb = Some 2\<rparr>),
                    (10, \<lparr>Data = ''klm'', DoneCb = Some 7\<rparr>)],
          readPos = 6, gaps = [\<lparr>Start = 13, End = MaxByteCount quicGo\<rparr>]\<rparr>)"
    by (simp add: sorter_eval)
  have range: "0 < MaxByteCount quicGo" "1 \<le> MaxStreamFrameSorterGaps quicGo"
    "framesInRange quicGo ?calls"
    by (simp_all add: quicGo_def)
  from callbacks_invoked_once [of quicGo ?calls] range show ?thesis
    by (simp add: run del: runSorter.simps)
qed

text \<open>
  C8, as stated, fails for a range that is covered by two queued frames of which the
  first is shorter than the new frame: with 130 bytes at 5 and 200 bytes at 135 queued,
  the range \<open>[5, 155)\<close> has been received, and a push of 150 bytes at 5 replaces the
  first entry by the frame cut at 135, returns nil and keeps callback 3 with the entry;
  the callback called is 1, of the entry replaced. And a push of a frame that ends at
  \<open>MaxByteCount\<close> does not return: \<open>findEndGap\<close> panics.
\<close>

theorem Push_covered_range_counterexample:
  "runSorter quicGo (newFrameSorter quicGo)
     [CallPush (replicate 130 CHR ''x'') 5 (Some 1),
      CallPush (replicate 200 CHR ''x'') 135 (Some 2)]
   = ([PushReturned None [], PushReturned None []],
      \<lparr>queue = [(5, \<lparr>Data = replicate 130 CHR ''x'', DoneCb = Some 1\<rparr>),
                 (135, \<lparr>Data = replicate 200 CHR ''x'', DoneCb = Some 2\<rparr>)],
       readPos = 0,
       gaps = [\<lparr>Start = 0, End = 5\<rparr>, \<lparr>Start = 335, End = MaxByteCount quicGo\<rparr>]\<rparr>)
   \<and> clearOfGaps [\<lparr>Start = 0, End = 5\<rparr>, \<lparr>Start = 335, End = MaxByteCount quicGo\<rparr>] 5 155
   \<and> Push quicGo
        \<lparr>queue = [(5, \<lparr>Data = replicate 130 CHR ''x'', DoneCb = Some 1\<rparr>),
                   (135, \<lparr>Data = replicate 200 CHR ''x'', DoneCb = Some 2\<rparr>)],
         readPos = 0,
         gaps = [\<lparr>Start = 0, End = 5\<rparr>, \<lparr>Start = 335, End = MaxByteCount quicGo\<rparr>]\<rparr>
        (replicate 150 CHR ''x'') 5 (Some 3)
   = Returned (None,
      \<lparr>queue = [(135, \<lparr>Data = replicate 200 CHR ''x'', DoneCb = Some 2\<rparr>),
                 (5, \<lparr>Data = replicate 130 CHR ''x'', DoneCb = Some 3\<rparr>)],
       readPos = 0,
       gaps = [\<lparr>Start = 0, End = 5\<rparr>, \<lparr>Start = 335, End = MaxByteCount quicGo\<rparr>]\<rparr>,
      [1])
   \<and> Push quicGo (newFrameSorter quicGo) ''A'' (MaxByteCount quicGo - 1) (Some 4) = Panicked"
  by (simp add: sorter_eval clearOfGaps_def)

text \<open>
  C8, amended: on a well-formed sorter, \<open>Push\<close> of a frame that is empty or ends below
  \<open>MaxByteCount\<close> returns (it does not panic), and its error is nil or the one of too
  many gaps, with more than \<open>MaxStreamFrameSorterGaps\<close> gaps in the list; a push with
  an empty payload, and a push that \<open>push\<close> takes for a duplicate, return nil, call the
  callback and leave the sorter as it was; a push of a range that has been received
  returns nil and leaves the gaps and the read position as they were, and the callback is
  called before the return or kept with a queued entry.
\<close>

theorem Push_errors_and_covered_ranges:
  assumes "wfSorter p s" "data = [] \<or> offset + int (length data) < MaxByteCount p"
  shows "\<exists>err s' fired. Push p s data offset doneCb = Returned (err, s', fired)
    \<and> (err = None
        \<or> err = Some errTooManyGaps \<and> MaxStreamFrameSorterGaps p < length (gaps s'))
    \<and> (data = [] \<longrightarrow> err = None \<and> s' = s \<and> fired = fire doneCb [])
    \<and> ((\<exists>r. push p s data offset doneCb = Returned (Some errDuplicateStreamData, r)) \<longrightarrow>
          err = None \<and> s' = s \<and> fired = fire doneCb [])
    \<and> (clearOfGaps (gaps s) offset (offset + int (length data)) \<longrightarrow>
          err = None \<and> gaps s' = gaps s \<and> readPos s' = readPos s
          \<and> heldCallbacks (queue s') + mset fired
              = heldCallbacks (queue s) + mset (fire doneCb []))"
proof -
  have dup: "Push p s data offset doneCb = Returned (None, s, fire doneCb [])"
    if "push p s data offset doneCb = Returned (Some errDuplicateStreamData, r)" for r
  proof -
    obtain s'' f where r: "r = (s'', f)" by (cases r)
    with that push_duplicate_unchanged [of p s data offset doneCb s'' f]
    show ?thesis by (simp add: Push_def)
  qed
  from assms show ?thesis
  proof (cases rule: Push_cases [where cb = doneCb])
    case (many s' fired)
    with dup show ?thesis by auto
  next
    case (ok s' fired)
    with dup show ?thesis by auto
  qed
qed

theorem Push_errors_and_covered_ranges_witness:
  "wfSorter quicGo
     \<lparr>queue = [(5, \<lparr>Data = ''fg'', DoneCb = Some 2\<rparr>), (7, \<lparr>Data = ''hij'', DoneCb = Some 3\<rparr>)],
      readPos = 0,
      gaps = [\<lparr>Start = 0, End = 5\<rparr>, \<lparr>Start = 10, End = MaxByteCount quicGo\<rparr>]\<rparr>
   \<and> 5 + int (length ''fghi'') < MaxByteCount quicGo
   \<and> clearOfGaps [\<lparr>Start = 0, End = 5\<rparr>, \<lparr>Start = 10, End = MaxByteCount quicGo\<rparr>]
        5 (5 + int (length ''fghi''))
   \<and> Push quicGo
        \<lparr>queue = [(5, \<lparr>Data = ''fg'', DoneCb = Some 2\<rparr>), (7, \<lparr>Data = ''hij'', DoneCb = Some 3\<rparr>)],
         readPos = 0,
         gaps = [\<lparr>Start = 0, End = 5\<rparr>, \<lparr>Start = 10, End = MaxByteCount quicGo\<rparr>]\<rparr>
        ''fghi'' 5 (Some 4)
      = Returned (None,
          \<lparr>queue = [(7, \<lparr>Data = ''hij'', DoneCb = Some 3\<rparr>), (5, \<lparr>Data = ''fg'', DoneCb = None\<rparr>)],
           readPos = 0,
           gaps = [\<lparr>Start = 0, End = 5\<rparr>, \<lparr>Start = 10, End = MaxByteCount quicGo\<rparr>]\<rparr>,
          [2, 4])
   \<and> Push quicGo
        \<lparr>queue = [(5, \<lparr>Data = ''fg'', DoneCb = Some 2\<rparr>), (7, \<lparr>Data = ''hij'', DoneCb = Some 3\<rparr>)],
         readPos = 0,
         gaps = [\<lparr>Start = 0, End = 5\<rparr>, \<lparr>Start = 10, End = MaxByteCount quicGo\<rparr>]\<rparr>
        [] 5 (Some 4)
      = Returned (None,
          \<lparr>queue = [(5, \<lparr>Data = ''fg'', DoneCb = Some 2\<rparr>), (7, \<lparr>Data = ''hij'', DoneCb = Some 3\<rparr>)],
           readPos = 0,
           gaps = [\<lparr>Start = 0, End = 5\<rparr>, \<lparr>Start = 10, End = MaxByteCount quicGo\<rparr>]\<rparr>,
          [4])
   \<and> push quicGo
        \<lparr>queue = [(5, \<lparr>Data = ''fg'', DoneCb = Some 2\<rparr>), (7, \<lparr>Data = ''hij'', DoneCb = Some 3\<rparr>)],
         readPos = 0,
         gaps = [\<lparr>Start = 0, End = 5\<rparr>, \<lparr>Start = 10, End = MaxByteCount quicGo\<rparr>]\<rparr>
        ''f'' 5 (Some 4)
      = Returned (Some errDuplicateStreamData,
          \<lparr>queue = [(5, \<lparr>Data = ''fg'', DoneCb = Some 2\<rparr>), (7, \<lparr>Data = ''hij'', DoneCb = Some 3\<rparr>)],
           readPos = 0,
           gaps = [\<lparr>Start = 0, End = 5\<rparr>, \<lparr>Start = 10, End = MaxByteCount quicGo\<rparr>]\<rparr>,
          [])"
proof -
  let ?s = "\<lparr>queue = [(5, \<lparr>Data = ''fg'', DoneCb = Some 2\<rparr>),
                        (7, \<lparr>Data = ''hij'', DoneCb = Some (3::nat)\<rparr>)],
     readPos = 0,
     gaps = [\<lparr>Start = 0, End = 5\<rparr>, \<lparr>Start = 10, End = MaxByteCount quicGo\<rparr>]\<rparr>"
  have wf: "wfSorter quicGo ?s"
    by (simp add: wfSorter_def gapsOrdered_def entriesClear_def clearOfGaps_def entryLen_def quicGo_def)
  have top: "''fghi'' = [] \<or> 5 + int (length ''fghi'') < MaxByteCount quicGo"
    "''f'' = [] \<or> 5 + int (length ''f'') < MaxByteCount quicGo"
    "([] :: string) = [] \<or> 5 + int (length ([] :: string)) < MaxByteCount quicGo"
    by (simp_all add: quicGo_def)
  have covered: "clearOfGaps (gaps ?s) 5 (5 + int (length ''fghi''))"
    by (simp add: clearOfGaps_def quicGo_def)
  have dup: "push quicGo ?s ''f'' 5 (Some 4) = Returned (Some errDuplicateStreamData, ?s, [])"
    by (simp add: sorter_eval)
  from Push_errors_and_covered_ranges [OF wf top(1), of "Some 4"]
    Push_errors_and_covered_ranges [OF wf top(3), of "Some 4"]
    Push_errors_and_covered_ranges [OF wf top(2), of "Some 4"]
    wf covered dup
  show ?thesis by (simp add: sorter_eval clearOfGaps_def)
qed

text \<open>
  C7, as stated, fails when the first push stores the frame cut: with \<open>"f"\<close> at 5 and
  \<open>"ghij"\<close> at 6 queued, \<open>push(2, "cdefg")\<close> stores \<open>"cde"\<close>; the same push again is
  not taken for a duplicate: it replaces \<open>"cde"\<close> and \<open>"f"\<close> (whose callback 1 is
  called) and stores \<open>"cdef"\<close>, so the queue is not the one the first push left.
\<close>

theorem Push_twice_counterexample:
  "runSorter quicGo (newFrameSorter quicGo)
     [CallPush ''f'' 5 (Some 1), CallPush ''ghij'' 6 (Some 2), CallPush ''cdefg'' 2 (Some 3)]
   = ([PushReturned None [], PushReturned None [], PushReturned None [3]],
      \<lparr>queue = [(5, \<lparr>Data = ''f'', DoneCb = Some 1\<rparr>), (6, \<lparr>Data = ''ghij'', DoneCb = Some 2\<rparr>),
                 (2, \<lparr>Data = ''cde'', DoneCb = None\<rparr>)],
       readPos = 0,
       gaps = [\<lparr>Start = 0, End = 2\<rparr>, \<lparr>Start = 10, End = MaxByteCount quicGo\<rparr>]\<rparr>)
  \<and> runSorter quicGo (newFrameSorter quicGo)
     [CallPush ''f'' 5 (Some 1), CallPush ''ghij'' 6 (Some 2), CallPush ''cdefg'' 2 (Some 3),
      CallPush ''cdefg'' 2 (Some 4)]
   = ([PushReturned None [], PushReturned None [], PushReturned None [3], PushReturned None [1, 4]],
      \<lparr>queue = [(6, \<lparr>Data = ''ghij'', DoneCb = Some 2\<rparr>), (2, \<lparr>Data = ''cdef'', DoneCb = None\<rparr>)],
       readPos = 0,
       gaps = [\<lparr>Start = 0, End = 2\<rparr>, \<lparr>Start = 10, End = MaxByteCount quicGo\<rparr>]\<rparr>)
  \<and> push quicGo
       \<lparr>queue = [(5, \<lparr>Data = ''f'', DoneCb = Some 1\<rparr>), (6, \<lparr>Data = ''ghij'', DoneCb = Some 2\<rparr>),
                  (2, \<lparr>Data = ''cde'', DoneCb = None\<rparr>)],
        readPos = 0,
        gaps = [\<lparr>Start = 0, End = 2\<rparr>, \<lparr>Start = 10, End = MaxByteCount quicGo\<rparr>]\<rparr>
       ''cdefg'' 2 (Some 4)
   = Returned (None,
      \<lparr>queue = [(6, \<lparr>Data = ''ghij'', DoneCb = Some 2\<rparr>), (2, \<lparr>Data = ''cdef'', DoneCb = None\<rparr>)],
       readPos = 0,
       gaps = [\<lparr>Start = 0, End = 2\<rparr>, \<lparr>Start = 10, End = MaxByteCount quicGo\<rparr>]\<rparr>,
      [1, 4])"
  by (simp add: sorter_eval)

text \<open>
  C7, amended: when a \<open>Push\<close> on a well-formed sorter has returned nil, the same
  \<open>Push\<close> again returns nil and leaves the gap list and the read position as the first
  push left them; its callback is called before the return or kept with a queued entry;
  and when the first push left at the offset an entry at least as long as the frame, the
  second is a duplicate: the sorter is not changed at all and the callback is called.
\<close>

theorem Push_twice:
  assumes "wfSorter p s"
    and "Push p s data offset doneCb = Returned (None, s1, fired1)"
  shows "\<exists>s2 fired2. Push p s1 data offset doneCb' = Returned (None, s2, fired2)
    \<and> gaps s2 = gaps s1 \<and> readPos s2 = readPos s1
    \<and> heldCallbacks (queue s2) + mset fired2
        = heldCallbacks (queue s1) + mset (fire doneCb' [])
    \<and> ((\<exists>e. map_of (queue s1) offset = Some e \<and> length data \<le> length (Data e)) \<longrightarrow>
          s2 = s1 \<and> fired2 = fire doneCb' [])"
proof -
  have range: "data = [] \<or> offset + int (length data) < MaxByteCount p"
    using Push_beyond_panics [OF assms(1), of data offset doneCb] assms(2) by fastforce
  from assms(1) range have "wfSorter p s1
      \<and> (data \<noteq> [] \<longrightarrow> clearOfGaps (gaps s1) offset (offset + int (length data)))"
  proof (cases rule: Push_cases [where cb = doneCb])
    case (many s' fired)
    with assms(2) show ?thesis by simp
  next
    case (ok s' fired)
    with assms(2) show ?thesis by simp
  qed
  then have first: "wfSorter p s1"
    "data \<noteq> [] \<longrightarrow> clearOfGaps (gaps s1) offset (offset + int (length data))"
    by simp_all
  from first(1) range show ?thesis
  proof (cases rule: Push_cases [where cb = doneCb'])
    case (many s' fired)
    with first(2) show ?thesis by simp
  next
    case (ok s2 fired2)
    have whole: "s2 = s1 \<and> fired2 = fire doneCb' []"
      if e: "map_of (queue s1) offset = Some e" "length data \<le> length (Data e)" for e
    proof -
      from ok(1) obtain r where r: "push p s1 data offset doneCb' = Returned r"
        by (auto simp: Push_def split: outcome.splits)
      from e have "int (length data) \<le> entryLen e" by (simp add: entryLen_def)
      from push_onto_entry [OF e(1) this r] r ok(1) show ?thesis by (simp add: Push_def)
    qed
    from ok first(2) whole show ?thesis by auto
  qed
qed

theorem Push_twice_witness:
  "wfSorter quicGo
     \<lparr>queue = [(5, \<lparr>Data = ''f'', DoneCb = Some 2\<rparr>), (6, \<lparr>Data = ''ghij'', DoneCb = Some 3\<rparr>)],
      readPos = 0,
      gaps = [\<lparr>Start = 0, End = 5\<rparr>, \<lparr>Start = 10, End = MaxByteCount quicGo\<rparr>]\<rparr>
   \<and> Push quicGo
        \<lparr>queue = [(5, \<lparr>Data = ''f'', DoneCb = Some 2\<rparr>), (6, \<lparr>Data = ''ghij'', DoneCb = Some 3\<rparr>)],
         readPos = 0,
         gaps = [\<lparr>Start = 0, End = 5\<rparr>, \<lparr>Start = 10, End = MaxByteCount quicGo\<rparr>]\<rparr>
        ''cdefg'' 2 (Some 4)
      = Returned (None,
          \<lparr>queue = [(5, \<lparr>Data = ''f'', DoneCb = Some 2\<rparr>), (6, \<lparr>Data = ''ghij'', DoneCb = Some 3\<rparr>),
                     (2, \<lparr>Data = ''cde'', DoneCb = None\<rparr>)],
           readPos = 0,
           gaps = [\<lparr>Start = 0, End = 2\<rparr>, \<lparr>Start = 10, End = MaxByteCount quicGo\<rparr>]\<rparr>,
          [4])
   \<and> Push quicGo
        \<lparr>queue = [(5, \<lparr>Data = ''f'', DoneCb = Some 2\<rparr>), (6, \<lparr>Data = ''ghij'', DoneCb = Some 3\<rparr>),
                   (2, \<lparr>Data = ''cde'', DoneCb = None\<rparr>)],
         readPos = 0,
         gaps = [\<lparr>Start = 0, End = 2\<rparr>, \<lparr>Start = 10, End = MaxByteCount quicGo\<rparr>]\<rparr>
        ''cdefg'' 2 (Some 5)
      = Returned (None,
          \<lparr>queue = [(6, \<lparr>Data = ''ghij'', DoneCb = Some 3\<rparr>), (2, \<lparr>Data = ''cdef'', DoneCb = None\<rparr>)],
           readPos = 0,
           gaps = [\<lparr>Start = 0, End = 2\<rparr>, \<lparr>Start = 10, End = MaxByteCount quicGo\<rparr>]\<rparr>,
          [2, 5])
   \<and> wfSorter quicGo (newFrameSorter quicGo)
   \<and> Push quicGo (newFrameSorter quicGo) ''ab'' 0 (Some 4)
      = Returned (None,
          \<lparr>queue = [(0, \<lparr>Data = ''ab'', DoneCb = Some 4\<rparr>)], readPos = 0,
           gaps = [\<lparr>Start = 2, End = MaxByteCount quicGo\<rparr>]\<rparr>, [])
   \<and> map_of [(0, \<lparr>Data = ''ab'', DoneCb = Some 4\<rparr>)] 0 = Some \<lparr>Data = ''ab'', DoneCb = Some 4\<rparr>
   \<and> Push quicGo
        \<lparr>queue = [(0, \<lparr>Data = ''ab'', DoneCb = Some 4\<rparr>)], readPos = 0,
         gaps = [\<lparr>Start = 2, End = MaxByteCount quicGo\<rparr>]\<rparr> ''ab'' 0 (Some 5)
      = Returned (None,
          \<lparr>queue = [(0, \<lparr>Data = ''ab'', DoneCb = Some 4\<rparr>)], readPos = 0,
           gaps = [\<lparr>Start = 2, End = MaxByteCount quicGo\<rparr>]\<rparr>, [5])"
proof -
  let ?s = "\<lparr>queue = [(5, \<lparr>Data = ''f'', DoneCb = Some 2\<rparr>),
                        (6, \<lparr>Data = ''ghij'', DoneCb = Some (3::nat)\<rparr>)],
     readPos = 0,
     gaps = [\<lparr>Start = 0, End = 5\<rparr>, \<lparr>Start = 10, End = MaxByteCount quicGo\<rparr>]\<rparr>"
  let ?s1 = "\<lparr>queue = [(5, \<lparr>Data = ''f'', DoneCb = Some 2\<rparr>),
                         (6, \<lparr>Data = ''ghij'', DoneCb = Some (3::nat)\<rparr>),
                         (2, \<lparr>Data = ''cde'', DoneCb = None\<rparr>)],
     readPos = 0,
     gaps = [\<lparr>Start = 0, End = 2\<rparr>, \<lparr>Start = 10, End = MaxByteCount quicGo\<rparr>]\<rparr>"
  let ?t1 = "\<lparr>queue = [(0, \<lparr>Data = ''ab'', DoneCb = Some (4::nat)\<rparr>)], readPos = 0,
           gaps = [\<lparr>Start = 2, End = MaxByteCount quicGo\<rparr>]\<rparr>"
  have wf: "wfSorter quicGo ?s"
    by (simp add: wfSorter_def gapsOrdered_def entriesClear_def clearOfGaps_def entryLen_def quicGo_def)
  have wf0: "wfSorter quicGo (newFrameSorter quicGo)"
    by (rule wf_new) (simp_all add: quicGo_def)
  have first: "Push quicGo ?s ''cdefg'' 2 (Some 4) = Returned (None, ?s1, [4])"
    "Push quicGo (newFrameSorter quicGo) ''ab'' 0 (Some 4) = Returned (None, ?t1, [])"
    by (simp_all add: sorter_eval)
  from Push_twice [OF wf first(1), of "Some 5"]
    Push_twice [OF wf0 first(2), of "Some 5"] wf wf0 first
  show ?thesis by (simp add: sorter_eval)
qed

end
